theory Spec2Isabelle
  imports Main
begin

section \<open>Text: Python strings as lists of code points\<close>

text \<open>
  A Python \<open>str\<close> is a sequence of Unicode code points; the pound and euro signs of the
  amount patterns do not fit a byte, so a text is a list of natural numbers.  The character
  tests below (\<open>\s\<close>, \<open>\d\<close>, \<open>upper\<close>, \<open>lower\<close>, \<open>strip\<close>, \<open>isdigit\<close>) are
  those of Python on the repertoire the recogniser is configured to emit: ASCII, the pound
  sign 163 and the euro sign 8364.  Outside this repertoire Python knows further white space,
  digits and case pairs that the definitions do not have; a property that depends on these
  tests is therefore stated for the texts of the repertoire, under the hypothesis
  \<open>in_repertoire\<close> defined further down.
\<close>

type_synonym ustr = "nat list"

definition cps :: "string \<Rightarrow> ustr" where
  "cps s = map of_char s"

definition POUND :: nat where "POUND = 163"
definition EURO :: nat where "EURO = 8364"
definition DOLLAR :: nat where "DOLLAR = 36"
definition NEWLINE :: nat where "NEWLINE = 10"

definition is_space :: "nat \<Rightarrow> bool" where
  "is_space c = ((9 \<le> c \<and> c \<le> 13) \<or> (28 \<le> c \<and> c \<le> 32))"

definition is_digit :: "nat \<Rightarrow> bool" where
  "is_digit c = (48 \<le> c \<and> c \<le> 57)"

definition is_upper_az :: "nat \<Rightarrow> bool" where
  "is_upper_az c = (65 \<le> c \<and> c \<le> 90)"

definition is_lower_az :: "nat \<Rightarrow> bool" where
  "is_lower_az c = (97 \<le> c \<and> c \<le> 122)"

definition chr_upper :: "nat \<Rightarrow> nat" where
  "chr_upper c = (if is_lower_az c then c - 32 else c)"

definition chr_lower :: "nat \<Rightarrow> nat" where
  "chr_lower c = (if is_upper_az c then c + 32 else c)"

definition str_upper :: "ustr \<Rightarrow> ustr" where
  "str_upper s = map chr_upper s"

definition str_lower :: "ustr \<Rightarrow> ustr" where
  "str_lower s = map chr_lower s"

text \<open>\<open>s.strip()\<close>: white space removed at both ends.\<close>

definition str_strip :: "ustr \<Rightarrow> ustr" where
  "str_strip s = rev (dropWhile is_space (rev (dropWhile is_space s)))"

text \<open>\<open>s.split(d)\<close> for a one-character separator: the empty text gives one empty piece.\<close>

fun str_split :: "nat \<Rightarrow> ustr \<Rightarrow> ustr list" where
  "str_split d [] = [[]]"
| "str_split d (c # cs) =
     (if c = d then [] # str_split d cs
      else (case str_split d cs of
              [] \<Rightarrow> [[c]]
            | l # ls \<Rightarrow> (c # l) # ls))"

text \<open>\<open>' '.join(xs)\<close>.\<close>

fun str_join :: "ustr \<Rightarrow> ustr list \<Rightarrow> ustr" where
  "str_join d [] = []"
| "str_join d [x] = x"
| "str_join d (x # y # ys) = x @ d @ str_join d (y # ys)"

definition starts_with :: "ustr \<Rightarrow> ustr \<Rightarrow> bool" where
  "starts_with w s = (take (length w) s = w)"

text \<open>\<open>w in s\<close>: the text \<open>w\<close> occurs in \<open>s\<close>.\<close>

fun str_contains :: "ustr \<Rightarrow> ustr \<Rightarrow> bool" where
  "str_contains w [] = (w = [])"
| "str_contains w (c # cs) = (starts_with w (c # cs) \<or> str_contains w cs)"

text \<open>\<open>s.endswith(w)\<close>.\<close>

definition str_endswith :: "ustr \<Rightarrow> ustr \<Rightarrow> bool" where
  "str_endswith w s = starts_with (rev w) (rev s)"

text \<open>\<open>s.isdigit()\<close>: at least one character and all of them digits.\<close>

definition str_isdigit :: "ustr \<Rightarrow> bool" where
  "str_isdigit s = (s \<noteq> [] \<and> list_all is_digit s)"

text \<open>\<open>s.replace(c, '')\<close> for a one-character \<open>c\<close>.\<close>

definition str_remove :: "nat \<Rightarrow> ustr \<Rightarrow> ustr" where
  "str_remove c s = filter (\<lambda>x. x \<noteq> c) s"

section \<open>Regular expressions: a backtracking matcher\<close>

text \<open>
  The patterns of the extractor use literals, character classes, greedy repetition of a
  character class (\<open>*\<close>, \<open>+\<close>, \<open>{m,n}\<close>), greedy options (\<open>?\<close>), alternation and one
  capturing group.  The matcher returns every way a pattern can match at the start of a
  text, in the order in which a backtracking engine tries them; the first one is the match
  the engine reports.  A state is the text still to be read and the content of group 1.
\<close>

datatype regex =
    Lit ustr
  | Cls "nat \<Rightarrow> bool"
  | Rep "nat \<Rightarrow> bool" nat "nat option"
  | Opt regex
  | Alt regex regex
  | Seq regex regex
  | Grp regex

type_synonym rstate = "ustr \<times> ustr option"

text \<open>
  Greedy repetition of a class, at least \<open>lo\<close> and at most \<open>hi\<close> times: first one more
  character, then, on backtracking, stopping here.
\<close>

fun reps :: "(nat \<Rightarrow> bool) \<Rightarrow> nat \<Rightarrow> nat option \<Rightarrow> ustr \<Rightarrow> ustr list" where
  "reps P lo hi [] = (if lo = 0 then [[]] else [])"
| "reps P lo hi (c # cs) =
     (if P c \<and> hi \<noteq> Some 0 then reps P (lo - 1) (map_option (\<lambda>h. h - 1) hi) cs else [])
     @ (if lo = 0 then [c # cs] else [])"

fun rx :: "regex \<Rightarrow> rstate \<Rightarrow> rstate list" where
  "rx (Lit w) (s, g) = (if starts_with w s then [(drop (length w) s, g)] else [])"
| "rx (Cls P) (s, g) = (case s of [] \<Rightarrow> [] | c # cs \<Rightarrow> if P c then [(cs, g)] else [])"
| "rx (Rep P lo hi) (s, g) = map (\<lambda>r. (r, g)) (reps P lo hi s)"
| "rx (Opt r) st = rx r st @ [st]"
| "rx (Alt a b) st = rx a st @ rx b st"
| "rx (Seq a b) st = concat (map (rx b) (rx a st))"
| "rx (Grp r) (s, g) =
     map (\<lambda>(s', g'). (s', Some (take (length s - length s') s))) (rx r (s, g))"

fun seqs :: "regex list \<Rightarrow> regex" where
  "seqs [] = Lit []"
| "seqs [r] = r"
| "seqs (r # rs) = Seq r (seqs rs)"

fun alts :: "regex list \<Rightarrow> regex" where
  "alts [] = Lit []"
| "alts [r] = r"
| "alts (r # rs) = Alt r (alts rs)"

text \<open>A match object: the whole match (\<open>group()\<close>), group 1 and the text after the match.\<close>

record rmatch =
  group0 :: ustr
  group1 :: "ustr option"
  after :: ustr

definition match_at :: "regex \<Rightarrow> ustr \<Rightarrow> rmatch option" where
  "match_at r s =
     (case rx r (s, None) of
        [] \<Rightarrow> None
      | (s', g) # _ \<Rightarrow> Some \<lparr>group0 = take (length s - length s') s, group1 = g, after = s'\<rparr>)"

text \<open>\<open>re.search\<close>: the match at the leftmost position that has one.\<close>

fun re_search :: "regex \<Rightarrow> ustr \<Rightarrow> rmatch option" where
  "re_search r [] = match_at r []"
| "re_search r (c # cs) =
     (case match_at r (c # cs) of
        Some m \<Rightarrow> Some m
      | None \<Rightarrow> re_search r cs)"

text \<open>
  \<open>re.findall\<close> for a pattern with one group: the contents of group 1 (the empty text
  when the group took no part) of the successive non-overlapping matches.  After an empty
  match the engine must advance: at the same position only a non-empty match is accepted
  (\<open>adv\<close>), and without one the scan moves on by one character.
\<close>

function re_findall_from :: "regex \<Rightarrow> ustr \<Rightarrow> bool \<Rightarrow> ustr list" where
  "re_findall_from r s adv =
     (case find (\<lambda>(s', g). if adv then length s' < length s else True) (rx r (s, None)) of
        Some (s', g) \<Rightarrow>
          (case g of None \<Rightarrow> [] | Some c \<Rightarrow> c)
          # (if length s' < length s then re_findall_from r s' False
             else re_findall_from r s True)
      | None \<Rightarrow> (case s of [] \<Rightarrow> [] | c # cs \<Rightarrow> re_findall_from r cs False))"
  by pat_completeness auto
termination
  by (relation "measure (\<lambda>(r, s, adv). 2 * length s + (if adv then 0 else 1))")
     (auto simp: find_Some_iff split: if_splits)

definition re_findall :: "regex \<Rightarrow> ustr \<Rightarrow> ustr list" where
  "re_findall r s = re_findall_from r s False"

section \<open>The patterns\<close>

definition sp :: regex where "sp = Rep is_space 0 None"
definition sp1 :: regex where "sp1 = Rep is_space 1 None"

definition is_tok :: "nat \<Rightarrow> bool" where
  "is_tok c = (is_upper_az c \<or> is_digit c \<or> c = 45)"

definition is_alpha :: "nat \<Rightarrow> bool" where
  "is_alpha c = (is_upper_az c \<or> is_lower_az c)"

definition is_sep :: "nat \<Rightarrow> bool" where
  "is_sep c = (c = 47 \<or> c = 45 \<or> c = 46)"

definition is_cursym :: "nat \<Rightarrow> bool" where
  "is_cursym c = (c = POUND \<or> c = DOLLAR \<or> c = EURO)"

definition is_dc :: "nat \<Rightarrow> bool" where
  "is_dc c = (is_digit c \<or> c = 44)"

definition invoice_patterns :: "regex list" where
  "invoice_patterns =
    [seqs [Lit (cps ''INVOICE''), sp,
           Opt (alts [Lit (cps ''NO''), Lit (cps ''NUMBER''), Lit (cps ''#'')]),
           sp, Opt (Lit (cps '':'')), sp, Grp (Rep is_tok 1 None)],
     seqs [Lit (cps ''INV''), sp,
           Opt (alts [Lit (cps ''NO''), Lit (cps ''#'')]),
           sp, Opt (Lit (cps '':'')), sp, Grp (Rep is_tok 1 None)],
     seqs [Lit (cps ''INVOICE''), sp1, Grp (Rep is_tok 1 None)],
     seqs [Lit (cps ''#''), sp, Grp (Rep is_tok 1 None)]]"

definition date_patterns :: "regex list" where
  "date_patterns =
    [Grp (seqs [Rep is_digit 1 (Some 2), Cls is_sep, Rep is_digit 1 (Some 2), Cls is_sep,
                Rep is_digit 2 (Some 4)]),
     Grp (seqs [Rep is_digit 1 (Some 2), sp1, Rep is_alpha 3 (Some 9), sp1,
                Rep is_digit 2 (Some 4)]),
     Grp (seqs [Rep is_digit 2 (Some 4), Cls is_sep, Rep is_digit 1 (Some 2), Cls is_sep,
                Rep is_digit 1 (Some 2)])]"

text \<open>The numeric token \<open>([\<pounds>$\<euro>]?\s*[\d,]+\.?\d*)\<close> and the optional currency prefix.\<close>

definition amount_token :: regex where
  "amount_token =
     Grp (seqs [Opt (Cls is_cursym), sp, Rep is_dc 1 None, Opt (Lit (cps ''.'')),
                Rep is_digit 0 None])"

definition currency_prefix :: regex where
  "currency_prefix =
     Opt (alts [Lit (cps ''GBP''), Lit (cps ''USD''), Lit (cps ''EUR''),
                Lit [DOLLAR], Lit [POUND], Lit [EURO]])"

definition amount_patterns :: "regex list" where
  "amount_patterns =
    [seqs [Lit (cps ''TOTAL''), sp, currency_prefix, Opt (Lit (cps '':'')), sp, amount_token],
     seqs [Lit (cps ''AMOUNT''), sp1, Lit (cps ''DUE''), sp, currency_prefix,
           Opt (Lit (cps '':'')), sp, amount_token],
     seqs [Lit (cps ''SUBTOTAL''), sp, Opt (Lit (cps '':'')), sp, amount_token],
     seqs [Lit (cps ''TAX''), sp, Opt (Seq (Rep is_digit 1 None) (Lit (cps ''%''))),
           Opt (Lit (cps '':'')), sp, amount_token]]"

definition currency_pattern :: regex where
  "currency_pattern =
     alts [Cls is_cursym, Lit (cps ''GBP''), Lit (cps ''USD''), Lit (cps ''EUR'')]"

section \<open>The field extractor\<close>

datatype error = AttributeError | TypeError | KeyError

type_synonym fields = "string \<rightharpoonup> ustr"

definition initial_fields :: fields where
  "initial_fields =
     [''invoice_number'' \<mapsto> [], ''invoice_date'' \<mapsto> [], ''due_date'' \<mapsto> [],
      ''vendor_name'' \<mapsto> [], ''vendor_address'' \<mapsto> [], ''bill_to'' \<mapsto> [],
      ''total_amount'' \<mapsto> [], ''subtotal'' \<mapsto> [], ''tax_amount'' \<mapsto> [],
      ''currency'' \<mapsto> []]"

text \<open>
  The invoice number: the patterns in order, the first that matches anywhere decides, and the
  loop is left.  \<open>match.group(1).strip()\<close> raises when the group took no part.
\<close>

fun invoice_number_loop :: "regex list \<Rightarrow> ustr \<Rightarrow> fields \<Rightarrow> error + fields" where
  "invoice_number_loop [] text_upper fs = Inr fs"
| "invoice_number_loop (pattern # rest) text_upper fs =
     (case re_search pattern text_upper of
        Some m \<Rightarrow>
          (case group1 m of
             None \<Rightarrow> Inl AttributeError
           | Some g \<Rightarrow> Inr (fs(''invoice_number'' \<mapsto> str_strip g)))
      | None \<Rightarrow> invoice_number_loop rest text_upper fs)"

text \<open>The dates: every match of every pattern, pattern after pattern, on the text as it is.\<close>

definition dates_found :: "ustr \<Rightarrow> ustr list" where
  "dates_found text = concat (map (\<lambda>pattern. re_findall pattern text) date_patterns)"

definition extract_dates :: "ustr \<Rightarrow> fields \<Rightarrow> fields" where
  "extract_dates text fs =
     (let ds = dates_found text in
      if ds \<noteq> [] then
        fs(''invoice_date'' \<mapsto> (if length ds > 0 then ds ! 0 else []),
           ''due_date'' \<mapsto> (if length ds > 1 then ds ! 1 else []))
      else fs)"

text \<open>The vendor: the first three lines, among the first ten, that are not blank and hold
  none of the keywords.\<close>

definition has_keyword :: "ustr \<Rightarrow> bool" where
  "has_keyword line =
     list_ex (\<lambda>keyword. str_contains keyword (str_upper line))
       [cps ''INVOICE'', cps ''BILL TO'', cps ''DATE'']"

fun vendor_loop :: "ustr list \<Rightarrow> ustr list \<Rightarrow> ustr list" where
  "vendor_loop [] vendor_lines = vendor_lines"
| "vendor_loop (line # rest) vendor_lines =
     (if str_strip line \<noteq> [] \<and> \<not> has_keyword line then
        (let vendor_lines' = vendor_lines @ [str_strip line] in
         if length vendor_lines' \<ge> 3 then vendor_lines'
         else vendor_loop rest vendor_lines')
      else vendor_loop rest vendor_lines)"

definition extract_vendor :: "ustr list \<Rightarrow> fields \<Rightarrow> fields" where
  "extract_vendor text_lines fs =
     (case vendor_loop (take 10 text_lines) [] of
        [] \<Rightarrow> fs
      | name # others \<Rightarrow>
          fs(''vendor_name'' \<mapsto> name, ''vendor_address'' \<mapsto> str_join (cps '' '') others))"

text \<open>The bill-to block: the index of the first line holding the marker, or \<open>-1\<close>; then
  the lines after it, at most five, up to the first blank one.\<close>

fun find_bill_to :: "ustr list \<Rightarrow> int \<Rightarrow> int" where
  "find_bill_to [] i = -1"
| "find_bill_to (line # rest) i =
     (if str_contains (cps ''BILL TO'') (str_upper line) then i
      else find_bill_to rest (i + 1))"

fun bill_to_loop :: "ustr list \<Rightarrow> ustr list \<Rightarrow> ustr list" where
  "bill_to_loop [] bill_to_lines = bill_to_lines"
| "bill_to_loop (line # rest) bill_to_lines =
     (if str_strip line \<noteq> [] then bill_to_loop rest (bill_to_lines @ [str_strip line])
      else bill_to_lines)"

definition extract_bill_to :: "ustr list \<Rightarrow> fields \<Rightarrow> fields" where
  "extract_bill_to text_lines fs =
     (let bill_to_start = find_bill_to text_lines 0 in
      if bill_to_start \<ge> 0 then
        (let lo = nat (bill_to_start + 1);
             hi = nat (min (bill_to_start + 6) (int (length text_lines)))
         in fs(''bill_to'' \<mapsto>
                 str_join (cps '' '')
                   (bill_to_loop (map (\<lambda>i. text_lines ! i) [lo ..< hi]) [])))
      else fs)"

text \<open>The currency: the first symbol or code; a symbol is replaced by its code.\<close>

definition currency_symbols :: "ustr \<Rightarrow> ustr" where
  "currency_symbols k =
     (if k = [POUND] then cps ''GBP''
      else if k = [DOLLAR] then cps ''USD''
      else if k = [EURO] then cps ''EUR''
      else k)"

definition extract_currency :: "ustr \<Rightarrow> fields \<Rightarrow> fields" where
  "extract_currency text_upper fs =
     (case re_search currency_pattern text_upper of
        Some m \<Rightarrow> fs(''currency'' \<mapsto> currency_symbols (group0 m))
      | None \<Rightarrow> fs)"

text \<open>An amount token is cleaned by \<open>re.sub(r'[\<pounds>$\<euro>,\s]', '', token)\<close> and kept when what is
  left, without its decimal points, is a digit string.\<close>

definition clean_amount :: "ustr \<Rightarrow> ustr" where
  "clean_amount tok = filter (\<lambda>c. \<not> (is_cursym c \<or> c = 44 \<or> is_space c)) tok"

definition amount_ok :: "ustr \<Rightarrow> bool" where
  "amount_ok amount = str_isdigit (str_remove 46 amount)"

text \<open>The total: the first two amount patterns in order; the loop is left only when a
  cleaned token passes the digit check.\<close>

fun total_loop :: "regex list \<Rightarrow> ustr \<Rightarrow> fields \<Rightarrow> error + fields" where
  "total_loop [] text_upper fs = Inr fs"
| "total_loop (pattern # rest) text_upper fs =
     (case re_search pattern text_upper of
        Some m \<Rightarrow>
          (case group1 m of
             None \<Rightarrow> Inl TypeError
           | Some g \<Rightarrow>
               (let amount = clean_amount g in
                if amount_ok amount then Inr (fs(''total_amount'' \<mapsto> amount))
                else total_loop rest text_upper fs))
      | None \<Rightarrow> total_loop rest text_upper fs)"

text \<open>The subtotal and the tax: one pattern each, the same cleaning and check.\<close>

definition extract_amount :: "regex \<Rightarrow> string \<Rightarrow> ustr \<Rightarrow> fields \<Rightarrow> error + fields" where
  "extract_amount pattern key text_upper fs =
     (case re_search pattern text_upper of
        Some m \<Rightarrow>
          (case group1 m of
             None \<Rightarrow> Inl TypeError
           | Some g \<Rightarrow>
               (let amount = clean_amount g in
                if amount_ok amount then Inr (fs(key \<mapsto> amount)) else Inr fs))
      | None \<Rightarrow> Inr fs)"

definition extract_invoice_fields :: "ustr \<Rightarrow> error + fields" where
  "extract_invoice_fields text =
     (let text_lines = str_split NEWLINE text;
          text_upper = str_upper text
      in case invoice_number_loop invoice_patterns text_upper initial_fields of
           Inl e \<Rightarrow> Inl e
         | Inr f1 \<Rightarrow>
             (let f2 = extract_dates text f1;
                  f3 = extract_vendor text_lines f2;
                  f4 = extract_bill_to text_lines f3;
                  f5 = extract_currency text_upper f4
              in case total_loop (take 2 amount_patterns) text_upper f5 of
                   Inl e \<Rightarrow> Inl e
                 | Inr f6 \<Rightarrow>
                     (case extract_amount (amount_patterns ! 2) ''subtotal'' text_upper f6 of
                        Inl e \<Rightarrow> Inl e
                      | Inr f7 \<Rightarrow>
                          extract_amount (amount_patterns ! 3) ''tax_amount'' text_upper f7)))"

text \<open>\<open>extract_invoice_fields(text)[key]\<close>.\<close>

definition field :: "string \<Rightarrow> ustr \<Rightarrow> error + ustr" where
  "field key text =
     (case extract_invoice_fields text of
        Inl e \<Rightarrow> Inl e
      | Inr fs \<Rightarrow> (case fs key of None \<Rightarrow> Inl KeyError | Some v \<Rightarrow> Inr v))"

section \<open>The worker: rasterise, recognise, extract, clean up\<close>

text \<open>
  What lies outside the program is an environment: the PDF library (a document opens or
  not, and each of its pages renders or not), the two recognisers (a text, or nothing when
  the image cannot be read or the engine fails) and the removal of a file (which may be
  refused).  A detection of the second recogniser carries whether its confidence is above
  0.3.  The world is the set of files in the working directory and the trace of what the
  worker did: the signals it emitted and the calls it made to recognition and extraction.
\<close>

datatype page = Page | BrokenPage

record env =
  fitz_open :: "ustr \<Rightarrow> page list option"
  tesseract :: "ustr \<Rightarrow> ustr option"
  easyocr_readtext :: "ustr \<Rightarrow> (ustr \<times> bool) list option"
  can_remove :: "ustr \<Rightarrow> bool"

record result =
  full_text :: ustr
  result_fields :: fields
  file_path :: ustr

datatype event =
    Progress ustr
  | Error ustr
  | Finished result
  | Recognise ustr ustr
  | Extract ustr

record world =
  files :: "ustr set"
  trace :: "event list"

definition emit :: "event \<Rightarrow> world \<Rightarrow> world" where
  "emit e w = w\<lparr>trace := trace w @ [e]\<rparr>"

function str_of_nat :: "nat \<Rightarrow> ustr" where
  "str_of_nat n = (if n < 10 then [48 + n] else str_of_nat (n div 10) @ [48 + n mod 10])"
  by pat_completeness auto
termination
  by (relation "measure (\<lambda>n. n)") auto

definition extract_text_tesseract :: "env \<Rightarrow> ustr \<Rightarrow> ustr" where
  "extract_text_tesseract en image_path =
     (case tesseract en image_path of None \<Rightarrow> [] | Some t \<Rightarrow> str_strip t)"

definition extract_text_easyocr :: "env \<Rightarrow> ustr \<Rightarrow> ustr" where
  "extract_text_easyocr en image_path =
     (case easyocr_readtext en image_path of
        None \<Rightarrow> []
      | Some results \<Rightarrow> str_join [NEWLINE] (map fst (filter snd results)))"

text \<open>\<open>pdf_to_images\<close>: each page is written to \<open>temp_page_<n>.png\<close>; when the document
  does not open or a page fails, the exception is caught and the empty list returned, the
  files written so far staying where they are.\<close>

fun render_pages :: "page list \<Rightarrow> nat \<Rightarrow> ustr list \<Rightarrow> world \<Rightarrow> ustr list option \<times> world" where
  "render_pages [] page_num images w = (Some images, w)"
| "render_pages (BrokenPage # ps) page_num images w = (None, w)"
| "render_pages (Page # ps) page_num images w =
     (let temp_path = cps ''temp_page_'' @ str_of_nat page_num @ cps ''.png''
      in render_pages ps (page_num + 1) (images @ [temp_path])
           (w\<lparr>files := insert temp_path (files w)\<rparr>))"

definition pdf_to_images :: "env \<Rightarrow> ustr \<Rightarrow> world \<Rightarrow> ustr list \<times> world" where
  "pdf_to_images en pdf_path w =
     (case fitz_open en pdf_path of
        None \<Rightarrow> ([], w)
      | Some doc \<Rightarrow>
          (case render_pages doc 0 [] w of
             (None, w') \<Rightarrow> ([], w')
           | (Some images, w') \<Rightarrow> (images, w')))"

text \<open>The removal of the page images; a removal that fails is passed over.\<close>

fun cleanup :: "env \<Rightarrow> ustr list \<Rightarrow> world \<Rightarrow> world" where
  "cleanup en [] w = w"
| "cleanup en (img_path # rest) w =
     cleanup en rest
       (if img_path \<in> files w \<and> can_remove en img_path
        then w\<lparr>files := files w - {img_path}\<rparr> else w)"

definition is_pdf :: "ustr \<Rightarrow> bool" where
  "is_pdf path = str_endswith (cps ''.pdf'') (str_lower path)"

text \<open>\<open>str(e)\<close> for the exceptions of the extractor (the wording of CPython 3.10).\<close>

definition str_of_error :: "error \<Rightarrow> ustr" where
  "str_of_error e =
     (case e of
        AttributeError \<Rightarrow>
          [39] @ cps ''NoneType'' @ [39] @ cps '' object has no attribute '' @ [39]
            @ cps ''strip'' @ [39]
      | TypeError \<Rightarrow> cps ''expected string or bytes-like object''
      | KeyError \<Rightarrow> [])"

text \<open>The choice of the recogniser.\<close>

definition recognise :: "env \<Rightarrow> ustr \<Rightarrow> ustr \<Rightarrow> ustr" where
  "recognise en ocr_engine image_path =
     (if ocr_engine = cps ''Tesseract'' then extract_text_tesseract en image_path
      else extract_text_easyocr en image_path)"

text \<open>The part of \<open>run\<close> after the image to read is known.\<close>

definition recognise_and_extract :: "env \<Rightarrow> ustr \<Rightarrow> ustr \<Rightarrow> ustr \<Rightarrow> ustr list \<Rightarrow> world \<Rightarrow> world" where
  "recognise_and_extract en path ocr_engine image_path images w0 =
     (let w1 = emit (Progress (cps ''Extracting text using '' @ ocr_engine @ cps ''...'')) w0;
          w2 = emit (Recognise ocr_engine image_path) w1;
          text = recognise en ocr_engine image_path;
          w3 = emit (Progress (cps ''Extracting invoice fields...'')) w2;
          w4 = emit (Extract text) w3
      in case extract_invoice_fields text of
           Inl e \<Rightarrow> emit (Error (cps ''OCR processing failed: '' @ str_of_error e)) w4
         | Inr fs \<Rightarrow>
             (let w5 = emit (Progress (cps ''OCR processing completed!'')) w4;
                  w6 = emit (Finished \<lparr>full_text = text, result_fields = fs, file_path = path\<rparr>) w5
              in if is_pdf path then cleanup en images w6 else w6))"

definition run :: "env \<Rightarrow> ustr \<Rightarrow> ustr \<Rightarrow> world \<Rightarrow> world" where
  "run en path ocr_engine w0 =
     (let w1 = emit (Progress (cps ''Starting OCR processing...'')) w0 in
      if is_pdf path then
        (let w2 = emit (Progress (cps ''Converting PDF to images...'')) w1 in
         case pdf_to_images en path w2 of
           ([], w3) \<Rightarrow> emit (Error (cps ''Failed to convert PDF to images'')) w3
         | (image_path # others, w3) \<Rightarrow>
             recognise_and_extract en path ocr_engine image_path (image_path # others) w3)
      else recognise_and_extract en path ocr_engine path [] w1)"

section \<open>Notions used to state and prove the properties\<close>

text \<open>The names of the ten fields.\<close>

definition field_names :: "string set" where
  "field_names =
     {''invoice_number'', ''invoice_date'', ''due_date'', ''vendor_name'', ''vendor_address'',
      ''bill_to'', ''total_amount'', ''subtotal'', ''tax_amount'', ''currency''}"

text \<open>The texts on which the character tests of the model are those of Python: every
  code point is ASCII, the pound sign or the euro sign.\<close>

definition in_repertoire :: "ustr \<Rightarrow> bool" where
  "in_repertoire t = list_all (\<lambda>c. c < 128 \<or> c = POUND \<or> c = EURO) t"

text \<open>A pattern that ends in its capturing group: whenever it matches, group 1 is set.\<close>

fun captures :: "regex \<Rightarrow> bool" where
  "captures (Grp r) = True"
| "captures (Seq a b) = captures b"
| "captures (Lit w) = False"
| "captures (Cls P) = False"
| "captures (Rep P lo hi) = False"
| "captures (Opt r) = False"
| "captures (Alt a b) = False"

text \<open>A text on which a repetition of the class \<open>P\<close> cannot go on: it is empty or
  starts outside the class.\<close>

definition stops :: "(nat \<Rightarrow> bool) \<Rightarrow> ustr \<Rightarrow> bool" where
  "stops P s = (case s of [] \<Rightarrow> True | c # _ \<Rightarrow> \<not> P c)"

text \<open>
  The rule for one amount pattern in the words of the specification: the token of the
  leftmost match, cleaned, when it passes the digit check.
\<close>

definition accepted_amount :: "regex \<Rightarrow> ustr \<Rightarrow> ustr option" where
  "accepted_amount pattern text_upper =
     (case re_search pattern text_upper of
        None \<Rightarrow> None
      | Some m \<Rightarrow>
          (case group1 m of
             None \<Rightarrow> None
           | Some g \<Rightarrow> if amount_ok (clean_amount g) then Some (clean_amount g) else None))"

text \<open>
  First match wins, in the words of the specification: the match of the first pattern of the
  list that matches anywhere in the text.
\<close>

definition first_matching :: "regex list \<Rightarrow> ustr \<Rightarrow> rmatch option" where
  "first_matching patterns text_upper =
     (case find (\<lambda>p. re_search p text_upper \<noteq> None) patterns of
        None \<Rightarrow> None
      | Some p \<Rightarrow> re_search p text_upper)"

text \<open>
  Environments and a world for the examples: a document whose second page does not render,
  a document that does not open, and a one-page document on which the recognisers read
  nothing.
\<close>

definition second_page_broken :: env where
  "second_page_broken =
     \<lparr>fitz_open = (\<lambda>p. Some [Page, BrokenPage]),
      tesseract = (\<lambda>p. None),
      easyocr_readtext = (\<lambda>p. None),
      can_remove = (\<lambda>p. True)\<rparr>"

definition no_files :: world where
  "no_files = \<lparr>files = {}, trace = []\<rparr>"

definition corrupt_pdf :: env where
  "corrupt_pdf =
     \<lparr>fitz_open = (\<lambda>p. None),
      tesseract = (\<lambda>p. None),
      easyocr_readtext = (\<lambda>p. None),
      can_remove = (\<lambda>p. True)\<rparr>"

definition blank_page :: env where
  "blank_page =
     \<lparr>fitz_open = (\<lambda>p. Some [Page]),
      tesseract = (\<lambda>p. Some []),
      easyocr_readtext = (\<lambda>p. Some []),
      can_remove = (\<lambda>p. True)\<rparr>"

section \<open>Properties of the field extractor\<close>

text \<open>The equations of the two functions that are not structurally recursive are used in
  evaluations only.\<close>

declare re_findall_from.simps [simp del]
declare str_of_nat.simps [simp del]

lemmas chr_defs = cps_def POUND_def EURO_def DOLLAR_def NEWLINE_def is_space_def is_digit_def
  is_upper_az_def is_lower_az_def chr_upper_def chr_lower_def str_upper_def str_lower_def
  str_strip_def starts_with_def str_endswith_def str_isdigit_def str_remove_def
  is_tok_def is_alpha_def is_sep_def is_cursym_def is_dc_def

lemmas rx_defs = match_at_def sp_def sp1_def invoice_patterns_def date_patterns_def
  amount_token_def currency_prefix_def amount_patterns_def currency_pattern_def re_findall_def
  re_findall_from.simps

lemmas ex_defs = initial_fields_def dates_found_def extract_dates_def has_keyword_def
  extract_vendor_def extract_bill_to_def currency_symbols_def extract_currency_def
  clean_amount_def amount_ok_def extract_amount_def extract_invoice_fields_def field_def

lemmas run_defs = run_def recognise_and_extract_def recognise_def emit_def is_pdf_def
  pdf_to_images_def extract_text_tesseract_def extract_text_easyocr_def str_of_nat.simps

subsection \<open>No step raises, and each step writes its own keys only\<close>

lemma rx_captures:
  "captures r \<Longrightarrow> (s', g') \<in> set (rx r st) \<Longrightarrow> g' \<noteq> None"
proof (induction r arbitrary: st s' g')
  case (Grp r)
  then show ?case by (cases st) auto
qed auto

lemma match_at_captures:
  assumes "captures r" and "match_at r s = Some m"
  shows "\<exists>g. group1 m = Some g"
proof -
  from assms(2) obtain s' g' rest where rx: "rx r (s, None) = (s', g') # rest" and m: "group1 m = g'"
    by (auto simp: match_at_def split: list.splits)
  then have "(s', g') \<in> set (rx r (s, None))" by simp
  with assms(1) have "g' \<noteq> None" by (rule rx_captures)
  with m show ?thesis by auto
qed

lemma re_search_captures:
  "captures r \<Longrightarrow> re_search r s = Some m \<Longrightarrow> \<exists>g. group1 m = Some g"
  by (induction s) (auto split: option.splits dest: match_at_captures)

lemma invoice_number_loop_frame:
  assumes "list_all captures ps"
  shows "\<exists>f. invoice_number_loop ps u fs = Inr f
           \<and> (\<forall>k. k \<noteq> ''invoice_number'' \<longrightarrow> f k = fs k)
           \<and> (fs ''invoice_number'' \<noteq> None \<longrightarrow> f ''invoice_number'' \<noteq> None)"
  using assms
proof (induction ps)
  case Nil
  then show ?case by simp
next
  case (Cons p ps)
  show ?case
  proof (cases "re_search p u")
    case None
    with Cons show ?thesis by simp
  next
    case (Some m)
    from Cons.prems have "captures p" by simp
    from re_search_captures[OF this Some] obtain g where "group1 m = Some g" by blast
    with Some show ?thesis by simp
  qed
qed

lemma total_loop_frame:
  assumes "list_all captures ps"
  shows "\<exists>f. total_loop ps u fs = Inr f
           \<and> (\<forall>k. k \<noteq> ''total_amount'' \<longrightarrow> f k = fs k)
           \<and> (fs ''total_amount'' \<noteq> None \<longrightarrow> f ''total_amount'' \<noteq> None)"
  using assms
proof (induction ps)
  case Nil
  then show ?case by simp
next
  case (Cons p ps)
  show ?case
  proof (cases "re_search p u")
    case None
    with Cons show ?thesis by simp
  next
    case (Some m)
    from Cons.prems have "captures p" by simp
    from re_search_captures[OF this Some] obtain g where "group1 m = Some g" by blast
    with Some Cons show ?thesis by (simp add: Let_def)
  qed
qed

lemma extract_amount_frame:
  assumes "captures p"
  shows "\<exists>f. extract_amount p key u fs = Inr f
           \<and> (\<forall>k. k \<noteq> key \<longrightarrow> f k = fs k)
           \<and> (fs key \<noteq> None \<longrightarrow> f key \<noteq> None)"
proof (cases "re_search p u")
  case None
  then show ?thesis by (simp add: extract_amount_def)
next
  case (Some m)
  from re_search_captures[OF assms Some] obtain g where "group1 m = Some g" by blast
  with Some show ?thesis by (simp add: extract_amount_def Let_def)
qed

lemma extract_dates_frame:
  "(\<forall>k. k \<noteq> ''invoice_date'' \<and> k \<noteq> ''due_date'' \<longrightarrow> extract_dates t fs k = fs k)
   \<and> (fs ''invoice_date'' \<noteq> None \<longrightarrow> extract_dates t fs ''invoice_date'' \<noteq> None)
   \<and> (fs ''due_date'' \<noteq> None \<longrightarrow> extract_dates t fs ''due_date'' \<noteq> None)"
  by (simp add: extract_dates_def Let_def)

lemma extract_vendor_frame:
  "(\<forall>k. k \<noteq> ''vendor_name'' \<and> k \<noteq> ''vendor_address'' \<longrightarrow> extract_vendor ls fs k = fs k)
   \<and> (fs ''vendor_name'' \<noteq> None \<longrightarrow> extract_vendor ls fs ''vendor_name'' \<noteq> None)
   \<and> (fs ''vendor_address'' \<noteq> None \<longrightarrow> extract_vendor ls fs ''vendor_address'' \<noteq> None)"
  by (simp add: extract_vendor_def split: list.splits)

lemma extract_bill_to_frame:
  "(\<forall>k. k \<noteq> ''bill_to'' \<longrightarrow> extract_bill_to ls fs k = fs k)
   \<and> (fs ''bill_to'' \<noteq> None \<longrightarrow> extract_bill_to ls fs ''bill_to'' \<noteq> None)"
  by (simp add: extract_bill_to_def Let_def)

lemma extract_currency_frame:
  "(\<forall>k. k \<noteq> ''currency'' \<longrightarrow> extract_currency u fs k = fs k)
   \<and> (fs ''currency'' \<noteq> None \<longrightarrow> extract_currency u fs ''currency'' \<noteq> None)"
  by (simp add: extract_currency_def split: option.splits)

lemma captures_invoice_patterns: "list_all captures invoice_patterns"
  by (simp add: invoice_patterns_def)

lemma captures_amount_patterns: "list_all captures amount_patterns"
  by (simp add: amount_patterns_def amount_token_def)

lemma frame_dom:
  assumes "\<forall>k. k \<noteq> key \<longrightarrow> f k = fs k" and "fs key \<noteq> None \<longrightarrow> f key \<noteq> None"
    and "key \<in> dom fs"
  shows "dom f = dom fs"
proof (rule set_eqI)
  fix k
  show "k \<in> dom f \<longleftrightarrow> k \<in> dom fs"
    using assms by (cases "k = key") (auto simp: dom_def)
qed

lemma dom_initial_fields: "dom initial_fields = field_names"
  by (auto simp: initial_fields_def field_names_def split: if_splits)

lemma dom_extract_dates: "dom fs = field_names \<Longrightarrow> dom (extract_dates t fs) = field_names"
  by (auto simp: extract_dates_def Let_def field_names_def)

lemma dom_extract_vendor: "dom fs = field_names \<Longrightarrow> dom (extract_vendor ls fs) = field_names"
  by (auto simp: extract_vendor_def field_names_def split: list.splits)

lemma dom_extract_bill_to: "dom fs = field_names \<Longrightarrow> dom (extract_bill_to ls fs) = field_names"
  by (auto simp: extract_bill_to_def Let_def field_names_def)

lemma dom_extract_currency: "dom fs = field_names \<Longrightarrow> dom (extract_currency u fs) = field_names"
  by (auto simp: extract_currency_def field_names_def split: option.splits)

lemma extract_steps:
  obtains f1 f6 f7 f where
    "invoice_number_loop invoice_patterns (str_upper t) initial_fields = Inr f1"
    "total_loop (take 2 amount_patterns) (str_upper t)
       (extract_currency (str_upper t)
         (extract_bill_to (str_split NEWLINE t)
           (extract_vendor (str_split NEWLINE t) (extract_dates t f1)))) = Inr f6"
    "extract_amount (amount_patterns ! 2) ''subtotal'' (str_upper t) f6 = Inr f7"
    "extract_amount (amount_patterns ! 3) ''tax_amount'' (str_upper t) f7 = Inr f"
    "extract_invoice_fields t = Inr f"
    "\<forall>k. k \<noteq> ''invoice_number'' \<longrightarrow> f1 k = initial_fields k"
    "f1 ''invoice_number'' \<noteq> None"
    "\<forall>k. k \<noteq> ''total_amount'' \<longrightarrow> f6 k =
       (extract_currency (str_upper t)
         (extract_bill_to (str_split NEWLINE t)
           (extract_vendor (str_split NEWLINE t) (extract_dates t f1)))) k"
    "\<forall>k. k \<noteq> ''subtotal'' \<longrightarrow> f7 k = f6 k"
    "\<forall>k. k \<noteq> ''tax_amount'' \<longrightarrow> f k = f7 k"
    "dom f = field_names"
proof -
  let ?u = "str_upper t"
  obtain f1 where f1: "invoice_number_loop invoice_patterns ?u initial_fields = Inr f1"
    "\<forall>k. k \<noteq> ''invoice_number'' \<longrightarrow> f1 k = initial_fields k"
    "initial_fields ''invoice_number'' \<noteq> None \<longrightarrow> f1 ''invoice_number'' \<noteq> None"
    using invoice_number_loop_frame[OF captures_invoice_patterns] by blast
  let ?f5 = "extract_currency ?u (extract_bill_to (str_split NEWLINE t)
           (extract_vendor (str_split NEWLINE t) (extract_dates t f1)))"
  have c2: "list_all captures (take 2 amount_patterns)"
    by (simp add: amount_patterns_def amount_token_def)
  have d1: "dom f1 = field_names"
  proof -
    have "''invoice_number'' \<in> dom initial_fields" by (simp add: initial_fields_def)
    from frame_dom[OF f1(2) f1(3) this] show ?thesis by (simp add: dom_initial_fields)
  qed
  have d5: "dom ?f5 = field_names"
    by (intro dom_extract_currency dom_extract_bill_to dom_extract_vendor dom_extract_dates d1)
  obtain f6 where f6: "total_loop (take 2 amount_patterns) ?u ?f5 = Inr f6"
    "\<forall>k. k \<noteq> ''total_amount'' \<longrightarrow> f6 k = ?f5 k"
    "?f5 ''total_amount'' \<noteq> None \<longrightarrow> f6 ''total_amount'' \<noteq> None"
    using total_loop_frame[OF c2] by blast
  have c3: "captures (amount_patterns ! 2)" "captures (amount_patterns ! 3)"
    by (simp_all add: amount_patterns_def amount_token_def)
  obtain f7 where f7: "extract_amount (amount_patterns ! 2) ''subtotal'' ?u f6 = Inr f7"
    "\<forall>k. k \<noteq> ''subtotal'' \<longrightarrow> f7 k = f6 k"
    "f6 ''subtotal'' \<noteq> None \<longrightarrow> f7 ''subtotal'' \<noteq> None"
    using extract_amount_frame[OF c3(1)] by blast
  obtain f where f: "extract_amount (amount_patterns ! 3) ''tax_amount'' ?u f7 = Inr f"
    "\<forall>k. k \<noteq> ''tax_amount'' \<longrightarrow> f k = f7 k"
    "f7 ''tax_amount'' \<noteq> None \<longrightarrow> f ''tax_amount'' \<noteq> None"
    using extract_amount_frame[OF c3(2)] by blast
  have d6: "dom f6 = field_names"
  proof -
    have "''total_amount'' \<in> dom ?f5" unfolding d5 by (simp add: field_names_def)
    from frame_dom[OF f6(2) f6(3) this] show ?thesis by (simp add: d5)
  qed
  have d7: "dom f7 = field_names"
  proof -
    have "''subtotal'' \<in> dom f6" unfolding d6 by (simp add: field_names_def)
    from frame_dom[OF f7(2) f7(3) this] show ?thesis by (simp add: d6)
  qed
  have d: "dom f = field_names"
  proof -
    have "''tax_amount'' \<in> dom f7" unfolding d7 by (simp add: field_names_def)
    from frame_dom[OF f(2) f(3) this] show ?thesis by (simp add: d7)
  qed
  have ex: "extract_invoice_fields t = Inr f"
    using f1(1) f6(1) f7(1) f(1) by (simp add: extract_invoice_fields_def Let_def)
  have nn: "f1 ''invoice_number'' \<noteq> None"
    using f1(3) by (simp add: initial_fields_def)
  show ?thesis
    by (rule that[OF f1(1) f6(1) f7(1) f(1) ex f1(2) nn f6(2) f7(2) f(2) d])
qed

lemma extract_dates_key:
  "fs ''invoice_date'' = fs' ''invoice_date'' \<Longrightarrow> fs ''due_date'' = fs' ''due_date'' \<Longrightarrow>
   extract_dates t fs ''invoice_date'' = extract_dates t fs' ''invoice_date''
   \<and> extract_dates t fs ''due_date'' = extract_dates t fs' ''due_date''"
  by (simp add: extract_dates_def Let_def)

lemma total_loop_key:
  assumes "fs ''total_amount'' = fs' ''total_amount''"
    and "total_loop ps u fs = Inr f" and "total_loop ps u fs' = Inr f'"
  shows "f ''total_amount'' = f' ''total_amount''"
  using assms
  by (induction ps) (auto simp: Let_def split: option.splits if_splits)

lemma extract_result:
  "\<exists>f f1 g. extract_invoice_fields t = Inr f \<and> dom f = field_names
     \<and> invoice_number_loop invoice_patterns (str_upper t) initial_fields = Inr f1
     \<and> f ''invoice_number'' = f1 ''invoice_number''
     \<and> f ''invoice_date'' = extract_dates t initial_fields ''invoice_date''
     \<and> f ''due_date'' = extract_dates t initial_fields ''due_date''
     \<and> total_loop (take 2 amount_patterns) (str_upper t) initial_fields = Inr g
     \<and> f ''total_amount'' = g ''total_amount''"
proof (rule extract_steps[of t])
  fix f1 f6 f7 f
  let ?u = "str_upper t" and ?ls = "str_split NEWLINE t"
  let ?f2 = "extract_dates t f1"
  let ?f5 = "extract_currency ?u (extract_bill_to ?ls (extract_vendor ?ls ?f2))"
  assume f1: "invoice_number_loop invoice_patterns ?u initial_fields = Inr f1"
    and f6: "total_loop (take 2 amount_patterns) ?u ?f5 = Inr f6"
    and "extract_amount (amount_patterns ! 2) ''subtotal'' ?u f6 = Inr f7"
    and "extract_amount (amount_patterns ! 3) ''tax_amount'' ?u f7 = Inr f"
    and ex: "extract_invoice_fields t = Inr f"
    and fr1: "\<forall>k. k \<noteq> ''invoice_number'' \<longrightarrow> f1 k = initial_fields k"
    and "f1 ''invoice_number'' \<noteq> None"
    and fr6: "\<forall>k. k \<noteq> ''total_amount'' \<longrightarrow> f6 k = ?f5 k"
    and fr7: "\<forall>k. k \<noteq> ''subtotal'' \<longrightarrow> f7 k = f6 k"
    and fr: "\<forall>k. k \<noteq> ''tax_amount'' \<longrightarrow> f k = f7 k"
    and d: "dom f = field_names"
  have up: "\<And>k. k \<noteq> ''total_amount'' \<Longrightarrow> k \<noteq> ''subtotal'' \<Longrightarrow> k \<noteq> ''tax_amount'' \<Longrightarrow>
      k \<noteq> ''currency'' \<Longrightarrow> k \<noteq> ''bill_to'' \<Longrightarrow> k \<noteq> ''vendor_name'' \<Longrightarrow> k \<noteq> ''vendor_address'' \<Longrightarrow>
      f k = ?f2 k"
    using fr fr7 fr6 extract_currency_frame extract_bill_to_frame extract_vendor_frame by simp
  have inv: "f ''invoice_number'' = f1 ''invoice_number''"
    using up[of "''invoice_number''"] extract_dates_frame by simp
  have "f ''invoice_date'' = ?f2 ''invoice_date''" "f ''due_date'' = ?f2 ''due_date''"
    using up[of "''invoice_date''"] up[of "''due_date''"] by simp_all
  moreover have "f1 ''invoice_date'' = initial_fields ''invoice_date''"
    "f1 ''due_date'' = initial_fields ''due_date''"
    using fr1 by simp_all
  ultimately have dt: "f ''invoice_date'' = extract_dates t initial_fields ''invoice_date''"
    "f ''due_date'' = extract_dates t initial_fields ''due_date''"
    using extract_dates_key[of f1 initial_fields t] by simp_all
  have c2: "list_all captures (take 2 amount_patterns)"
    by (simp add: amount_patterns_def amount_token_def)
  obtain g where g: "total_loop (take 2 amount_patterns) ?u initial_fields = Inr g"
    using total_loop_frame[OF c2] by blast
  have "?f5 ''total_amount'' = f1 ''total_amount''"
    using extract_currency_frame extract_bill_to_frame extract_vendor_frame extract_dates_frame
    by simp
  then have "?f5 ''total_amount'' = initial_fields ''total_amount''"
    using fr1 by simp
  from total_loop_key[OF this f6 g] have "f6 ''total_amount'' = g ''total_amount''" .
  moreover have "f ''total_amount'' = f6 ''total_amount''"
    using fr fr7 by simp
  ultimately have tot: "f ''total_amount'' = g ''total_amount''" by simp
  from ex d f1 inv dt g tot show ?thesis by blast
qed

lemma field_eq: "extract_invoice_fields t = Inr f \<Longrightarrow> f k = Some v \<Longrightarrow> field k t = Inr v"
  by (simp add: field_def)

subsection \<open>The value of a field\<close>

lemma field_invoice_date:
  "field ''invoice_date'' t = Inr (case dates_found t of [] \<Rightarrow> [] | d # _ \<Rightarrow> d)"
proof -
  from extract_result[of t] obtain f where f: "extract_invoice_fields t = Inr f"
    "f ''invoice_date'' = extract_dates t initial_fields ''invoice_date''" by blast
  have "extract_dates t initial_fields ''invoice_date''
          = Some (case dates_found t of [] \<Rightarrow> [] | d # _ \<Rightarrow> d)"
    by (cases "dates_found t") (simp_all add: extract_dates_def Let_def initial_fields_def)
  with f show ?thesis by (simp add: field_def)
qed

lemma field_due_date:
  "field ''due_date'' t = Inr (case dates_found t of d # e # _ \<Rightarrow> e | _ \<Rightarrow> [])"
proof -
  from extract_result[of t] obtain f where f: "extract_invoice_fields t = Inr f"
    "f ''due_date'' = extract_dates t initial_fields ''due_date''" by blast
  have "extract_dates t initial_fields ''due_date''
          = Some (case dates_found t of d # e # _ \<Rightarrow> e | _ \<Rightarrow> [])"
    by (cases "dates_found t")
       (simp_all add: extract_dates_def Let_def initial_fields_def split: list.splits)
  with f show ?thesis by (simp add: field_def)
qed

lemma total_loop_two:
  "total_loop [p, q] u fs = Inr g \<Longrightarrow>
   g ''total_amount'' =
     (case accepted_amount p u of
        Some a \<Rightarrow> Some a
      | None \<Rightarrow> (case accepted_amount q u of Some a \<Rightarrow> Some a | None \<Rightarrow> fs ''total_amount''))"
  by (auto simp: accepted_amount_def Let_def split: option.splits if_splits)

lemma field_total_amount:
  "field ''total_amount'' t =
     Inr (case accepted_amount (amount_patterns ! 0) (str_upper t) of
            Some a \<Rightarrow> a
          | None \<Rightarrow>
              (case accepted_amount (amount_patterns ! 1) (str_upper t) of
                 Some a \<Rightarrow> a
               | None \<Rightarrow> []))"
proof -
  from extract_result[of t] obtain f g where f: "extract_invoice_fields t = Inr f"
    "total_loop (take 2 amount_patterns) (str_upper t) initial_fields = Inr g"
    "f ''total_amount'' = g ''total_amount''" by blast
  have "take 2 amount_patterns = [amount_patterns ! 0, amount_patterns ! 1]"
    by (simp add: amount_patterns_def)
  with f(2) have "total_loop [amount_patterns ! 0, amount_patterns ! 1] (str_upper t) initial_fields = Inr g"
    by simp
  from total_loop_two[OF this] f(1,3) show ?thesis
    by (simp add: field_def initial_fields_def split: option.splits)
qed

lemma invoice_number_loop_first:
  "invoice_number_loop ps u fs = Inr f \<Longrightarrow>
   f ''invoice_number'' =
     (case first_matching ps u of
        None \<Rightarrow> fs ''invoice_number''
      | Some m \<Rightarrow> Some (str_strip (case group1 m of None \<Rightarrow> [] | Some g \<Rightarrow> g)))"
  by (induction ps) (auto simp: first_matching_def split: option.splits)

lemma field_invoice_number:
  "field ''invoice_number'' t =
     Inr (case first_matching invoice_patterns (str_upper t) of
            None \<Rightarrow> []
          | Some m \<Rightarrow> str_strip (case group1 m of None \<Rightarrow> [] | Some g \<Rightarrow> g))"
proof -
  from extract_result[of t] obtain f f1 where f: "extract_invoice_fields t = Inr f"
    "invoice_number_loop invoice_patterns (str_upper t) initial_fields = Inr f1"
    "f ''invoice_number'' = f1 ''invoice_number''" by blast
  from invoice_number_loop_first[OF f(2)] f(1,3) show ?thesis
    by (simp add: field_def initial_fields_def split: option.splits)
qed

subsection \<open>Searching past a prefix without a match\<close>

lemma re_search_skip:
  "(\<forall>i<length pre. match_at r (drop i (pre @ s)) = None) \<Longrightarrow> re_search r (pre @ s) = re_search r s"
proof (induction pre)
  case Nil
  show ?case by simp
next
  case (Cons c cs)
  from Cons.prems have "match_at r (drop 0 ((c # cs) @ s)) = None" by blast
  then have h: "match_at r (c # cs @ s) = None" by simp
  have "\<forall>i<length cs. match_at r (drop i (cs @ s)) = None"
  proof (intro allI impI)
    fix i assume "i < length cs"
    then have "Suc i < length (c # cs)" by simp
    with Cons.prems have "match_at r (drop (Suc i) ((c # cs) @ s)) = None" by blast
    then show "match_at r (drop i (cs @ s)) = None" by simp
  qed
  from Cons.IH[OF this] h show ?case by simp
qed

lemma all_less_list_all: "(\<forall>i<n. P i) = list_all P [0..<n]"
  by (auto simp: list_all_iff)

lemma invoice_date_header:
  "match_at (invoice_patterns ! 0) (cps ''INVOICE DATE:'' @ post)
     = Some \<lparr>group0 = cps ''INVOICE DATE'', group1 = Some (cps ''DATE''), after = 58 # post\<rparr>"
  by (simp add: chr_defs rx_defs)

lemma tok_facts:
  "is_tok 65" "is_tok 49" "is_tok 48" "is_tok 78" "is_tok 79" "\<not> is_tok 58" "\<not> is_tok 32"
  by (simp_all add: is_tok_def is_upper_az_def is_digit_def)

lemma invoice_no_header:
  assumes "case post of [] \<Rightarrow> True | c # _ \<Rightarrow> \<not> is_tok c"
  shows "match_at (invoice_patterns ! 0) (cps ''INVOICE NO: A100'' @ post)
     = Some \<lparr>group0 = cps ''INVOICE NO: A100'', group1 = Some (cps ''A100''), after = post\<rparr>"
proof (cases post)
  case Nil
  then show ?thesis by (simp add: chr_defs rx_defs)
next
  case (Cons c cs)
  with assms have "\<not> is_tok c" by simp
  then show ?thesis unfolding Cons
    by (simp add: cps_def starts_with_def is_space_def rx_defs tok_facts)
qed

subsection \<open>Greedy repetition over a run of characters\<close>

lemma reps_stops: "stops P s \<Longrightarrow> reps P 0 hi s = [s]"
  by (cases s) (simp_all add: stops_def)

lemma reps_run:
  "list_all P xs \<Longrightarrow> stops P rest \<Longrightarrow> lo \<le> length xs \<Longrightarrow>
   \<exists>others. reps P lo None (xs @ rest) = rest # others"
proof (induction xs arbitrary: lo)
  case Nil
  then show ?case by (simp add: reps_stops)
next
  case (Cons x xs)
  from Cons.prems have "list_all P xs" "lo - 1 \<le> length xs" by simp_all
  from Cons.IH[OF this(1) Cons.prems(2) this(2)]
  obtain others where "reps P (lo - 1) None (xs @ rest) = rest # others" by blast
  with Cons.prems(1) show ?case by simp
qed

subsection \<open>The amount token after the word TOTAL\<close>

lemma dc_facts:
  "is_dc c \<Longrightarrow> \<not> is_space c" "is_dc c \<Longrightarrow> \<not> is_cursym c" "is_dc c \<Longrightarrow> c \<noteq> 46"
  "is_digit c \<Longrightarrow> is_dc c"
  by (auto simp: is_dc_def is_digit_def is_space_def is_cursym_def POUND_def DOLLAR_def EURO_def)

lemma amount_token_first:
  assumes ip: "ip \<noteq> []" "list_all is_dc ip"
    and fp: "fp = [] \<or> (\<exists>fd. fp = 46 # fd \<and> list_all is_digit fd)"
    and post: "case post of [] \<Rightarrow> True | c # _ \<Rightarrow> c = NEWLINE"
  shows "\<exists>others. rx amount_token (ip @ fp @ post, g) = (post, Some (ip @ fp)) # others"
proof -
  obtain d ip' where d: "ip = d # ip'" using ip(1) by (cases ip) auto
  with ip(2) have dc: "is_dc d" by simp
  have post_digit: "stops is_digit post" and post_dc: "stops is_dc post"
    and post_dot: "\<not> starts_with [46] post"
    using post
    by (auto simp: stops_def starts_with_def NEWLINE_def is_digit_def is_dc_def split: list.splits)
  have fp_dc: "stops is_dc (fp @ post)"
    using fp post_dc by (auto simp: stops_def is_dc_def is_digit_def)
  from reps_run[OF ip(2) fp_dc, of 1] ip(1)
  obtain o1 where r1: "reps is_dc 1 None (ip @ fp @ post) = (fp @ post) # o1"
    by (cases ip) auto
  let ?tail = "Seq (Opt (Lit (cps ''.''))) (Rep is_digit 0 None)"
  have "\<exists>o2. rx ?tail (fp @ post, g) = (post, g) # o2"
  proof -
    from fp show ?thesis
    proof
      assume "fp = []"
      then show ?thesis
        using post_dot post_digit by (simp add: cps_def reps_stops)
    next
      assume "\<exists>fd. fp = 46 # fd \<and> list_all is_digit fd"
      then obtain fd where fd: "fp = 46 # fd" "list_all is_digit fd" by blast
      from reps_run[OF fd(2) post_digit, of 0]
      obtain o3 where "reps is_digit 0 None (fd @ post) = post # o3" by auto
      with fd(1) show ?thesis by (simp add: cps_def starts_with_def)
    qed
  qed
  then obtain o2 where r2: "rx ?tail (fp @ post, g) = (post, g) # o2" by blast
  have "\<exists>o4. rx (seqs [Opt (Cls is_cursym), sp, Rep is_dc 1 None, Opt (Lit (cps ''.'')),
                Rep is_digit 0 None]) (ip @ fp @ post, g) = (post, g) # o4"
    using dc r2 r1 unfolding d
    by (simp add: sp_def dc_facts del: append_assoc)
  then obtain o4 where "rx (seqs [Opt (Cls is_cursym), sp, Rep is_dc 1 None, Opt (Lit (cps ''.'')),
                Rep is_digit 0 None]) (ip @ fp @ post, g) = (post, g) # o4" by blast
  then show ?thesis
    by (simp add: amount_token_def)
qed


lemma space_facts: "is_space 32" "\<not> is_space 58"
  by (simp_all add: is_space_def)

lemma total_in_subtotal:
  assumes ip: "ip \<noteq> []" "list_all is_dc ip"
    and fp: "fp = [] \<or> (\<exists>fd. fp = 46 # fd \<and> list_all is_digit fd)"
    and post: "case post of [] \<Rightarrow> True | c # _ \<Rightarrow> c = NEWLINE"
  shows "match_at (amount_patterns ! 0) (cps ''TOTAL: '' @ ip @ fp @ post)
           = Some \<lparr>group0 = cps ''TOTAL: '' @ ip @ fp, group1 = Some (ip @ fp), after = post\<rparr>"
proof -
  obtain d ip' where d: "ip = d # ip'" using ip(1) by (cases ip) auto
  with ip(2) have dc: "is_dc d" by simp
  from amount_token_first[OF ip fp post, of None]
  obtain others where tk: "rx amount_token (d # ip' @ fp @ post, None) = (post, Some (ip @ fp)) # others"
    unfolding d by auto
  have "\<exists>o2. rx (amount_patterns ! 0) (cps ''TOTAL: '' @ d # ip' @ fp @ post, None)
          = (post, Some (ip @ fp)) # o2"
    using dc tk
    by (simp add: amount_patterns_def sp_def currency_prefix_def cps_def starts_with_def
        POUND_def DOLLAR_def EURO_def space_facts dc_facts)
  then obtain o2 where "rx (amount_patterns ! 0) (cps ''TOTAL: '' @ ip @ fp @ post, None)
          = (post, Some (ip @ fp)) # o2"
    unfolding d by auto
  then show ?thesis
    by (simp add: match_at_def)
qed

lemma clean_amount_number:
  assumes "list_all is_dc ip" and "fp = [] \<or> (\<exists>fd. fp = 46 # fd \<and> list_all is_digit fd)"
  shows "clean_amount (ip @ fp) = filter (\<lambda>c. c \<noteq> 44) ip @ fp"
proof -
  have a: "filter (\<lambda>c. \<not> (is_cursym c \<or> c = 44 \<or> is_space c)) ip = filter (\<lambda>c. c \<noteq> 44) ip"
    using assms(1) by (intro filter_cong) (auto simp: list_all_iff dc_facts)
  have k: "\<not> (is_cursym c \<or> c = 44 \<or> is_space c)" if "is_digit c \<or> c = 46" for c
    using that by (auto simp: is_cursym_def is_space_def is_digit_def POUND_def DOLLAR_def EURO_def)
  have "\<forall>c\<in>set fp. is_digit c \<or> c = 46"
    using assms(2) by (auto simp: list_all_iff)
  with k have "\<forall>c\<in>set fp. \<not> (is_cursym c \<or> c = 44 \<or> is_space c)"
    by blast
  then have b: "filter (\<lambda>c. \<not> (is_cursym c \<or> c = 44 \<or> is_space c)) fp = fp"
    by (simp add: filter_id_conv)
  show ?thesis by (simp only: clean_amount_def filter_append a b)
qed

lemma amount_ok_number:
  assumes "list_all is_dc ip" and "list_ex is_digit ip"
    and "fp = [] \<or> (\<exists>fd. fp = 46 # fd \<and> list_all is_digit fd)"
  shows "amount_ok (filter (\<lambda>c. c \<noteq> 44) ip @ fp)"
proof -
  from assms(2) obtain x where x: "x \<in> set ip" "is_digit x" by (auto simp: list_ex_iff)
  then have "x \<noteq> 44" "x \<noteq> 46" by (auto simp: is_digit_def)
  with x have ne: "x \<in> set (str_remove 46 (filter (\<lambda>c. c \<noteq> 44) ip @ fp))"
    by (simp add: str_remove_def)
  have "\<forall>c \<in> set (str_remove 46 (filter (\<lambda>c. c \<noteq> 44) ip @ fp)). is_digit c"
    using assms(1,3) by (auto simp: str_remove_def list_all_iff is_dc_def)
  with ne show ?thesis
    by (auto simp: amount_ok_def str_isdigit_def list_all_iff)
qed

subsection \<open>The date patterns on one date\<close>

lemma findall_step:
  "re_findall_from r (c # cs) False =
     (case rx r (c # cs, None) of
        [] \<Rightarrow> re_findall_from r cs False
      | (s', g) # _ \<Rightarrow>
          (case g of None \<Rightarrow> [] | Some x \<Rightarrow> x)
          # (if length s' < Suc (length cs) then re_findall_from r s' False
             else re_findall_from r (c # cs) True))"
  by (subst re_findall_from.simps) (simp split: list.splits prod.splits)

lemma cls_facts:
  "is_sep c \<Longrightarrow> \<not> is_digit c" "is_sep c \<Longrightarrow> \<not> is_space c"
  "is_digit c \<Longrightarrow> \<not> is_space c" "is_digit c \<Longrightarrow> \<not> is_sep c"
  by (auto simp: is_sep_def is_digit_def is_space_def)

lemma match_at_None: "match_at r s = None \<longleftrightarrow> rx r (s, None) = []"
  by (auto simp: match_at_def split: list.splits)

lemma reps_hi0: "reps P lo (Some 0) s = (if lo = 0 then [s] else [])"
  by (cases s) simp_all

lemma findall_miss:
  "rx r (s, None) = [] \<Longrightarrow>
   re_findall_from r s False = (case s of [] \<Rightarrow> [] | c # cs \<Rightarrow> re_findall_from r cs False)"
  by (subst re_findall_from.simps) simp

lemma findall_skip:
  "(\<forall>i<length pre. match_at r (drop i (pre @ s)) = None) \<Longrightarrow>
   re_findall_from r (pre @ s) False = re_findall_from r s False"
proof (induction pre)
  case Nil
  show ?case by simp
next
  case (Cons c cs)
  from Cons.prems have "match_at r (drop 0 ((c # cs) @ s)) = None" by blast
  then have h: "rx r (c # cs @ s, None) = []" by (simp add: match_at_None)
  have "\<forall>i<length cs. match_at r (drop i (cs @ s)) = None"
  proof (intro allI impI)
    fix i assume "i < length cs"
    then have "Suc i < length (c # cs)" by simp
    with Cons.prems have "match_at r (drop (Suc i) ((c # cs) @ s)) = None" by blast
    then show "match_at r (drop i (cs @ s)) = None" by simp
  qed
  from Cons.IH[OF this] findall_miss[OF h] show ?case by simp
qed

lemma findall_none:
  "(\<forall>i\<le>length s. match_at r (drop i s) = None) \<Longrightarrow> re_findall_from r s False = []"
proof (induction s)
  case Nil
  then have "rx r ([], None) = []" by (simp add: match_at_None)
  from findall_miss[OF this] show ?case by simp
next
  case (Cons c cs)
  from Cons.prems have "match_at r (drop 0 (c # cs)) = None" by blast
  then have h: "rx r (c # cs, None) = []" by (simp add: match_at_None)
  have "\<forall>i\<le>length cs. match_at r (drop i cs) = None"
  proof (intro allI impI)
    fix i assume "i \<le> length cs"
    then have "Suc i \<le> length (c # cs)" by simp
    with Cons.prems have "match_at r (drop (Suc i) (c # cs)) = None" by blast
    then show "match_at r (drop i cs) = None" by simp
  qed
  from Cons.IH[OF this] findall_miss[OF h] show ?case by simp
qed

lemma all_le_list_all: "(\<forall>i\<le>n. P i) = list_all P [0..<Suc n]"
  by (auto simp: list_all_iff less_Suc_eq_le)

lemma dmy_on_date:
  assumes dg: "is_digit d1" "is_digit d2" "is_digit y1" "is_digit y2" "is_digit y3" "is_digit y4"
    and sp: "is_sep s1" "is_sep s2"
    and mm: "mm = [m1] \<or> mm = [m1, m2]" "is_digit m1" "is_digit m2"
    and post: "re_findall_from (date_patterns ! 0) post False = []"
  shows "re_findall_from (date_patterns ! 0)
           (d1 # d2 # s1 # mm @ s2 # y1 # y2 # y3 # y4 # post) False
         = [d1 # d2 # s1 # mm @ [s2, y1, y2, y3, y4]]"
proof -
  have nd: "re_findall_from (Grp (Seq (Rep is_digit (Suc 0) (Some 2)) (Seq (Cls is_sep)
              (Seq (Rep is_digit (Suc 0) (Some 2)) (Seq (Cls is_sep) (Rep is_digit 2 (Some 4)))))))
              post False = []"
    using post by (simp add: date_patterns_def)
  from mm(1) show ?thesis
  proof
    assume "mm = [m1]"
    then show ?thesis
      using dg sp mm(2)
      by (simp add: findall_step date_patterns_def cls_facts reps_hi0 nd)
  next
    assume "mm = [m1, m2]"
    then show ?thesis
      using dg sp mm(2,3)
      by (simp add: findall_step date_patterns_def cls_facts reps_hi0 nd)
  qed
qed

lemma ymd_on_date:
  assumes dg: "is_digit d1" "is_digit d2" "is_digit y1" "is_digit y2"
    and sp: "is_sep s1" "is_sep s2"
    and mm: "mm = [m1] \<or> mm = [m1, m2]" "is_digit m1" "is_digit m2"
    and rest: "re_findall_from (date_patterns ! 2) rest False = []"
  shows "re_findall_from (date_patterns ! 2)
           (d1 # d2 # s1 # mm @ s2 # y1 # y2 # rest) False
         = [d1 # d2 # s1 # mm @ [s2, y1, y2]]"
proof -
  have nd: "re_findall_from (Grp (Seq (Rep is_digit 2 (Some 4)) (Seq (Cls is_sep)
              (Seq (Rep is_digit (Suc 0) (Some 2)) (Seq (Cls is_sep)
                (Rep is_digit (Suc 0) (Some 2))))))) rest False = []"
    using rest by (simp add: date_patterns_def)
  from mm(1) show ?thesis
  proof
    assume "mm = [m1]"
    then show ?thesis
      using dg sp mm(2)
      by (simp add: findall_step date_patterns_def cls_facts reps_hi0 nd)
  next
    assume "mm = [m1, m2]"
    then show ?thesis
      using dg sp mm(2,3)
      by (simp add: findall_step date_patterns_def cls_facts reps_hi0 nd)
  qed
qed

lemma textual_on_date:
  assumes dg: "is_digit d1" "is_digit d2" "is_digit y1" "is_digit y2" "is_digit y3" "is_digit y4"
    and sp: "is_sep s1" "is_sep s2"
    and mm: "mm = [m1] \<or> mm = [m1, m2]" "is_digit m1" "is_digit m2"
    and rest: "re_findall_from (date_patterns ! 1) (y3 # y4 # post) False = []"
  shows "re_findall_from (date_patterns ! 1)
           (d1 # d2 # s1 # mm @ s2 # y1 # y2 # y3 # y4 # post) False = []"
proof -
  let ?p = "date_patterns ! 1"
  from mm(1) show ?thesis
  proof
    assume m: "mm = [m1]"
    have "list_all (\<lambda>i. match_at ?p (drop i ([d1, d2, s1, m1, s2, y1, y2] @ y3 # y4 # post)) = None)
            [0..<length [d1, d2, s1, m1, s2, y1, y2]]"
      using dg sp mm(2)
      by (simp add: match_at_def date_patterns_def sp1_def cls_facts)
    then have "\<forall>i<length [d1, d2, s1, m1, s2, y1, y2].
        match_at ?p (drop i ([d1, d2, s1, m1, s2, y1, y2] @ y3 # y4 # post)) = None"
      by (simp only: all_less_list_all)
    from findall_skip[OF this] rest show ?thesis by (simp add: m)
  next
    assume m: "mm = [m1, m2]"
    have "list_all (\<lambda>i. match_at ?p (drop i ([d1, d2, s1, m1, m2, s2, y1, y2] @ y3 # y4 # post)) = None)
            [0..<length [d1, d2, s1, m1, m2, s2, y1, y2]]"
      using dg sp mm(2,3)
      by (simp add: match_at_def date_patterns_def sp1_def cls_facts)
    then have "\<forall>i<length [d1, d2, s1, m1, m2, s2, y1, y2].
        match_at ?p (drop i ([d1, d2, s1, m1, m2, s2, y1, y2] @ y3 # y4 # post)) = None"
      by (simp only: all_less_list_all)
    from findall_skip[OF this] rest show ?thesis by (simp add: m)
  qed
qed

section \<open>Properties of the worker\<close>

lemma trace_cleanup: "trace (cleanup en imgs w) = trace w"
  by (induction imgs arbitrary: w) auto

lemma render_pages_trace: "render_pages ps n imgs w = (r, w') \<Longrightarrow> trace w' = trace w"
  by (induction ps n imgs w rule: render_pages.induct) (auto simp: Let_def)

lemma render_pages_fst: "fst (render_pages ps n imgs w) = fst (render_pages ps n imgs w')"
proof (induction ps arbitrary: n imgs w w')
  case Nil
  show ?case by simp
next
  case (Cons p ps)
  show ?case
  proof (cases p)
    case Page
    show ?thesis unfolding Page by (simp add: Let_def) (rule Cons.IH)
  next
    case BrokenPage
    then show ?thesis by simp
  qed
qed

lemma pdf_to_images_trace: "pdf_to_images en p w = (imgs, w') \<Longrightarrow> trace w' = trace w"
  by (auto simp: pdf_to_images_def split: option.splits prod.splits dest: render_pages_trace)

lemma pdf_to_images_fst: "fst (pdf_to_images en p w) = fst (pdf_to_images en p w')"
proof (cases "fitz_open en p")
  case None
  then show ?thesis by (simp add: pdf_to_images_def)
next
  case (Some doc)
  obtain r w1 where a: "render_pages doc 0 [] w = (r, w1)" by (cases "render_pages doc 0 [] w")
  obtain r' w1' where b: "render_pages doc 0 [] w' = (r', w1')" by (cases "render_pages doc 0 [] w'")
  from render_pages_fst[of doc 0 "[]" w w'] a b have "r = r'" by simp
  with Some a b show ?thesis by (simp add: pdf_to_images_def split: option.splits)
qed

lemma extract_empty: "extract_invoice_fields [] = Inr initial_fields"
  by (simp add: chr_defs rx_defs ex_defs Let_def)

section \<open>The claims\<close>

text \<open>
  C1.  For every text the extractor returns (it never raises), and the mapping it returns
  has exactly the ten field names as its keys, each bound to a text.
\<close>

theorem extract_invoice_fields_keys:
  "\<exists>f. extract_invoice_fields text = Inr f
     \<and> dom f = {''invoice_number'', ''invoice_date'', ''due_date'', ''vendor_name'',
          ''vendor_address'', ''bill_to'', ''total_amount'', ''subtotal'', ''tax_amount'',
          ''currency''}"
proof -
  from extract_result[of "text"] obtain f
    where "extract_invoice_fields text = Inr f" "dom f = field_names"
    by blast
  then show ?thesis by (simp add: field_names_def)
qed

text \<open>
  C6.  When the input is a PDF and its rasterisation returns no page image (the document
  does not open, has no page, or a page fails), the worker emits the two progress messages
  and the error signal ``Failed to convert PDF to images'' and does nothing else: the trace
  holds no call of a recogniser and no call of the extractor.
\<close>

theorem run_fails_without_pages:
  assumes "is_pdf path" and "fst (pdf_to_images en path w) = []"
  shows "trace (run en path ocr_engine w) =
           trace w @ [Progress (cps ''Starting OCR processing...''),
                      Progress (cps ''Converting PDF to images...''),
                      Error (cps ''Failed to convert PDF to images'')]"
proof -
  let ?w2 = "emit (Progress (cps ''Converting PDF to images...''))
               (emit (Progress (cps ''Starting OCR processing...'')) w)"
  obtain imgs w3 where p: "pdf_to_images en path ?w2 = (imgs, w3)"
    by (cases "pdf_to_images en path ?w2")
  from pdf_to_images_fst[of en path ?w2 w] p assms(2) have "imgs = []" by simp
  moreover from pdf_to_images_trace[OF p] have "trace w3 = trace ?w2" .
  ultimately show ?thesis
    using assms(1) p by (simp add: run_def Let_def emit_def)
qed

theorem run_fails_without_pages_witness:
  "is_pdf (cps ''a.pdf'')
   \<and> fst (pdf_to_images corrupt_pdf (cps ''a.pdf'') no_files) = []
   \<and> trace (run corrupt_pdf (cps ''a.pdf'') (cps ''EasyOCR'') no_files) =
       trace no_files @ [Progress (cps ''Starting OCR processing...''),
                         Progress (cps ''Converting PDF to images...''),
                         Error (cps ''Failed to convert PDF to images'')]"
proof -
  have a: "is_pdf (cps ''a.pdf'')" by (simp add: is_pdf_def chr_defs)
  have b: "fst (pdf_to_images corrupt_pdf (cps ''a.pdf'') no_files) = []"
    by (simp add: pdf_to_images_def corrupt_pdf_def)
  from a b run_fails_without_pages[OF a b, of "cps ''EasyOCR''"] show ?thesis by simp
qed

text \<open>
  C7.  The extractor applied to the empty text returns the mapping in which each of the ten
  fields is the empty text, and does not raise.  When the recognised text is empty the
  worker goes on to the extraction and ends with the \<open>finished\<close> signal carrying these
  fields, for an image as for a PDF; it emits no error.
\<close>

theorem empty_text_is_success:
  "extract_invoice_fields [] =
     Inr [''invoice_number'' \<mapsto> [], ''invoice_date'' \<mapsto> [], ''due_date'' \<mapsto> [],
          ''vendor_name'' \<mapsto> [], ''vendor_address'' \<mapsto> [], ''bill_to'' \<mapsto> [],
          ''total_amount'' \<mapsto> [], ''subtotal'' \<mapsto> [], ''tax_amount'' \<mapsto> [],
          ''currency'' \<mapsto> []]
   \<and> (\<not> is_pdf path \<and> recognise en ocr_engine path = [] \<longrightarrow>
        trace (run en path ocr_engine w) =
          trace w @ [Progress (cps ''Starting OCR processing...''),
                     Progress (cps ''Extracting text using '' @ ocr_engine @ cps ''...''),
                     Recognise ocr_engine path,
                     Progress (cps ''Extracting invoice fields...''),
                     Extract [],
                     Progress (cps ''OCR processing completed!''),
                     Finished \<lparr>full_text = [], result_fields = initial_fields,
                               file_path = path\<rparr>])
   \<and> (is_pdf path \<and> fst (pdf_to_images en path w) = image_path # others
        \<and> recognise en ocr_engine image_path = [] \<longrightarrow>
        trace (run en path ocr_engine w) =
          trace w @ [Progress (cps ''Starting OCR processing...''),
                     Progress (cps ''Converting PDF to images...''),
                     Progress (cps ''Extracting text using '' @ ocr_engine @ cps ''...''),
                     Recognise ocr_engine image_path,
                     Progress (cps ''Extracting invoice fields...''),
                     Extract [],
                     Progress (cps ''OCR processing completed!''),
                     Finished \<lparr>full_text = [], result_fields = initial_fields,
                               file_path = path\<rparr>])"
proof (intro conjI impI)
  show "extract_invoice_fields [] =
     Inr [''invoice_number'' \<mapsto> [], ''invoice_date'' \<mapsto> [], ''due_date'' \<mapsto> [],
          ''vendor_name'' \<mapsto> [], ''vendor_address'' \<mapsto> [], ''bill_to'' \<mapsto> [],
          ''total_amount'' \<mapsto> [], ''subtotal'' \<mapsto> [], ''tax_amount'' \<mapsto> [],
          ''currency'' \<mapsto> []]"
    using extract_empty by (simp add: initial_fields_def)
next
  assume "\<not> is_pdf path \<and> recognise en ocr_engine path = []"
  then show "trace (run en path ocr_engine w) =
          trace w @ [Progress (cps ''Starting OCR processing...''),
                     Progress (cps ''Extracting text using '' @ ocr_engine @ cps ''...''),
                     Recognise ocr_engine path,
                     Progress (cps ''Extracting invoice fields...''),
                     Extract [],
                     Progress (cps ''OCR processing completed!''),
                     Finished \<lparr>full_text = [], result_fields = initial_fields,
                               file_path = path\<rparr>]"
    by (simp add: run_def recognise_and_extract_def Let_def emit_def extract_empty)
next
  assume h: "is_pdf path \<and> fst (pdf_to_images en path w) = image_path # others
        \<and> recognise en ocr_engine image_path = []"
  let ?w2 = "emit (Progress (cps ''Converting PDF to images...''))
               (emit (Progress (cps ''Starting OCR processing...'')) w)"
  obtain imgs w3 where p: "pdf_to_images en path ?w2 = (imgs, w3)"
    by (cases "pdf_to_images en path ?w2")
  from pdf_to_images_fst[of en path ?w2 w] p h have i: "imgs = image_path # others" by simp
  from pdf_to_images_trace[OF p] have t: "trace w3 = trace ?w2" .
  have "run en path ocr_engine w =
          recognise_and_extract en path ocr_engine image_path (image_path # others) w3"
    using h p i by (simp add: run_def Let_def)
  then show "trace (run en path ocr_engine w) =
          trace w @ [Progress (cps ''Starting OCR processing...''),
                     Progress (cps ''Converting PDF to images...''),
                     Progress (cps ''Extracting text using '' @ ocr_engine @ cps ''...''),
                     Recognise ocr_engine image_path,
                     Progress (cps ''Extracting invoice fields...''),
                     Extract [],
                     Progress (cps ''OCR processing completed!''),
                     Finished \<lparr>full_text = [], result_fields = initial_fields,
                               file_path = path\<rparr>]"
    using h t by (simp add: recognise_and_extract_def Let_def emit_def extract_empty trace_cleanup)
qed

theorem empty_text_is_success_witness:
  "\<not> is_pdf (cps ''scan.png'')
   \<and> recognise blank_page (cps ''Tesseract'') (cps ''scan.png'') = []
   \<and> trace (run blank_page (cps ''scan.png'') (cps ''Tesseract'') no_files) =
        [Progress (cps ''Starting OCR processing...''),
         Progress (cps ''Extracting text using Tesseract...''),
         Recognise (cps ''Tesseract'') (cps ''scan.png''),
         Progress (cps ''Extracting invoice fields...''),
         Extract [],
         Progress (cps ''OCR processing completed!''),
         Finished \<lparr>full_text = [], result_fields = initial_fields,
                   file_path = cps ''scan.png''\<rparr>]
   \<and> is_pdf (cps ''scan.pdf'')
   \<and> fst (pdf_to_images blank_page (cps ''scan.pdf'') no_files) = [cps ''temp_page_0.png'']
   \<and> recognise blank_page (cps ''EasyOCR'') (cps ''temp_page_0.png'') = []
   \<and> trace (run blank_page (cps ''scan.pdf'') (cps ''EasyOCR'') no_files) =
        [Progress (cps ''Starting OCR processing...''),
         Progress (cps ''Converting PDF to images...''),
         Progress (cps ''Extracting text using EasyOCR...''),
         Recognise (cps ''EasyOCR'') (cps ''temp_page_0.png''),
         Progress (cps ''Extracting invoice fields...''),
         Extract [],
         Progress (cps ''OCR processing completed!''),
         Finished \<lparr>full_text = [], result_fields = initial_fields,
                   file_path = cps ''scan.pdf''\<rparr>]"
proof -
  have a: "\<not> is_pdf (cps ''scan.png'')" by (simp add: is_pdf_def chr_defs)
  have b: "recognise blank_page (cps ''Tesseract'') (cps ''scan.png'') = []"
    by (simp add: recognise_def extract_text_tesseract_def blank_page_def str_strip_def)
  have c: "is_pdf (cps ''scan.pdf'')" by (simp add: is_pdf_def chr_defs)
  have d: "fst (pdf_to_images blank_page (cps ''scan.pdf'') no_files) = [cps ''temp_page_0.png'']"
    by (simp add: pdf_to_images_def blank_page_def Let_def str_of_nat.simps cps_def)
  have e: "recognise blank_page (cps ''EasyOCR'') (cps ''temp_page_0.png'') = []"
    by (simp add: recognise_def extract_text_easyocr_def blank_page_def cps_def)
  have t: "trace no_files = []" by (simp add: no_files_def)
  from empty_text_is_success[of "cps ''scan.png''" blank_page "cps ''Tesseract''" no_files]
    a b t
  have r1: "trace (run blank_page (cps ''scan.png'') (cps ''Tesseract'') no_files) =
        [Progress (cps ''Starting OCR processing...''),
         Progress (cps ''Extracting text using Tesseract...''),
         Recognise (cps ''Tesseract'') (cps ''scan.png''),
         Progress (cps ''Extracting invoice fields...''),
         Extract [],
         Progress (cps ''OCR processing completed!''),
         Finished \<lparr>full_text = [], result_fields = initial_fields,
                   file_path = cps ''scan.png''\<rparr>]"
    by (simp add: cps_def)
  from empty_text_is_success[of "cps ''scan.pdf''" blank_page "cps ''EasyOCR''" no_files
      "cps ''temp_page_0.png''" "[]"] c d e t
  have r2: "trace (run blank_page (cps ''scan.pdf'') (cps ''EasyOCR'') no_files) =
        [Progress (cps ''Starting OCR processing...''),
         Progress (cps ''Converting PDF to images...''),
         Progress (cps ''Extracting text using EasyOCR...''),
         Recognise (cps ''EasyOCR'') (cps ''temp_page_0.png''),
         Progress (cps ''Extracting invoice fields...''),
         Extract [],
         Progress (cps ''OCR processing completed!''),
         Finished \<lparr>full_text = [], result_fields = initial_fields,
                   file_path = cps ''scan.pdf''\<rparr>]"
    by (simp add: cps_def)
  from a b c d e r1 r2 show ?thesis by blast
qed


text \<open>
  C2.  The page images are removed at the end of the successful path only.  On a PDF of two
  pages whose second page fails to render, \<open>pdf_to_images\<close> has written the image of
  the first page when it returns the empty list; the worker emits the error and returns, and
  the file \<open>temp_page_0.png\<close> is still there.  On a PDF of one page that renders, the
  same file is written and, after the \<open>finished\<close> signal, removed.
\<close>

theorem run_leaves_page_image:
  "files (run second_page_broken (cps ''a.pdf'') (cps ''Tesseract'') no_files)
     = {cps ''temp_page_0.png''}
   \<and> trace (run second_page_broken (cps ''a.pdf'') (cps ''Tesseract'') no_files)
     = [Progress (cps ''Starting OCR processing...''),
        Progress (cps ''Converting PDF to images...''),
        Error (cps ''Failed to convert PDF to images'')]
   \<and> pdf_to_images blank_page (cps ''a.pdf'') no_files
     = ([cps ''temp_page_0.png''], \<lparr>files = {cps ''temp_page_0.png''}, trace = []\<rparr>)
   \<and> files (run blank_page (cps ''a.pdf'') (cps ''Tesseract'') no_files) = {}"
proof -
  have a: "files (run second_page_broken (cps ''a.pdf'') (cps ''Tesseract'') no_files)
     = {cps ''temp_page_0.png''}
   \<and> trace (run second_page_broken (cps ''a.pdf'') (cps ''Tesseract'') no_files)
     = [Progress (cps ''Starting OCR processing...''),
        Progress (cps ''Converting PDF to images...''),
        Error (cps ''Failed to convert PDF to images'')]"
    by (simp add: run_defs Let_def second_page_broken_def no_files_def chr_defs)
  have b: "pdf_to_images blank_page (cps ''a.pdf'') no_files
     = ([cps ''temp_page_0.png''], \<lparr>files = {cps ''temp_page_0.png''}, trace = []\<rparr>)"
    by (simp add: run_defs Let_def blank_page_def no_files_def chr_defs)
  have c: "files (run blank_page (cps ''a.pdf'') (cps ''Tesseract'') no_files) = {}"
    by (simp add: run_defs Let_def blank_page_def no_files_def chr_defs extract_empty)
  from a b c show ?thesis by blast
qed

text \<open>
  C3.  For a text of the repertoire, the dates found are the matches of the first date pattern, then those of the second,
  then those of the third, each list in the order of the text, searched in the text as it is
  (not upper-cased).  The invoice date is the first date found and the due date the second,
  each empty when there is none.  For the text \<open>10/01/2024 ... 25/02/2024\<close> they are
  \<open>10/01/2024\<close> and \<open>25/02/2024\<close>.  Nothing checks the calendar or the order: the
  text \<open>31/02/2024 01/01/1999\<close> gives the invoice date \<open>31/02/2024\<close> and the due date
  \<open>01/01/1999\<close>.
\<close>

theorem dates_in_pattern_then_match_order:
  assumes "in_repertoire t"
  shows "dates_found t =
     re_findall (date_patterns ! 0) t @ re_findall (date_patterns ! 1) t
       @ re_findall (date_patterns ! 2) t
   \<and> field ''invoice_date'' t = Inr (case dates_found t of [] \<Rightarrow> [] | d # _ \<Rightarrow> d)
   \<and> field ''due_date'' t = Inr (case dates_found t of d # e # _ \<Rightarrow> e | _ \<Rightarrow> [])
   \<and> field ''invoice_date'' (cps ''10/01/2024 ... 25/02/2024'') = Inr (cps ''10/01/2024'')
   \<and> field ''due_date'' (cps ''10/01/2024 ... 25/02/2024'') = Inr (cps ''25/02/2024'')
   \<and> field ''invoice_date'' (cps ''31/02/2024 01/01/1999'') = Inr (cps ''31/02/2024'')
   \<and> field ''due_date'' (cps ''31/02/2024 01/01/1999'') = Inr (cps ''01/01/1999'')"
proof -
  have a: "dates_found t =
     re_findall (date_patterns ! 0) t @ re_findall (date_patterns ! 1) t
       @ re_findall (date_patterns ! 2) t"
    by (simp add: dates_found_def date_patterns_def)
  have b: "dates_found (cps ''10/01/2024 ... 25/02/2024'')
             = [cps ''10/01/2024'', cps ''25/02/2024'', cps ''10/01/20'', cps ''25/02/20'']"
    by (simp add: chr_defs rx_defs dates_found_def)
  have c: "dates_found (cps ''31/02/2024 01/01/1999'')
             = [cps ''31/02/2024'', cps ''01/01/1999'', cps ''31/02/20'', cps ''01/01/19'']"
    by (simp add: chr_defs rx_defs dates_found_def)
  have d: "field ''invoice_date'' (cps ''10/01/2024 ... 25/02/2024'') = Inr (cps ''10/01/2024'')"
    "field ''due_date'' (cps ''10/01/2024 ... 25/02/2024'') = Inr (cps ''25/02/2024'')"
    unfolding field_invoice_date field_due_date b by simp_all
  have e: "field ''invoice_date'' (cps ''31/02/2024 01/01/1999'') = Inr (cps ''31/02/2024'')"
    "field ''due_date'' (cps ''31/02/2024 01/01/1999'') = Inr (cps ''01/01/1999'')"
    unfolding field_invoice_date field_due_date c by simp_all
  from a field_invoice_date[of t] field_due_date[of t] d e show ?thesis by blast
qed

theorem dates_in_pattern_then_match_order_witness:
  "in_repertoire (cps ''5 March 2024 to 7 April 2024'')
   \<and> dates_found (cps ''5 March 2024 to 7 April 2024'')
       = [cps ''5 March 2024'', cps ''7 April 2024'']
   \<and> field ''invoice_date'' (cps ''5 March 2024 to 7 April 2024'') = Inr (cps ''5 March 2024'')
   \<and> field ''due_date'' (cps ''5 March 2024 to 7 April 2024'') = Inr (cps ''7 April 2024'')"
proof -
  let ?t = "cps ''5 March 2024 to 7 April 2024''"
  have rep: "in_repertoire ?t" by (simp add: in_repertoire_def cps_def)
  have df: "dates_found ?t = [cps ''5 March 2024'', cps ''7 April 2024'']"
    by (simp add: chr_defs rx_defs dates_found_def)
  from dates_in_pattern_then_match_order[OF rep]
  have "field ''invoice_date'' ?t = Inr (case dates_found ?t of [] \<Rightarrow> [] | d # _ \<Rightarrow> d)"
    and "field ''due_date'' ?t = Inr (case dates_found ?t of d # e # _ \<Rightarrow> e | _ \<Rightarrow> [])"
    by blast+
  then have "field ''invoice_date'' ?t = Inr (cps ''5 March 2024'')"
    and "field ''due_date'' ?t = Inr (cps ''7 April 2024'')"
    unfolding df by simp_all
  with rep df show ?thesis by blast
qed

text \<open>
  C4, as the code has it.  For a text of the repertoire, the total is the cleaned token of the TOTAL pattern when that
  pattern matches and its token passes the digit check; otherwise that of the AMOUNT DUE
  pattern under the same conditions; otherwise it stays empty.  \<open>TOTAL: \<pounds>1,234.56\<close>
  gives \<open>1234.56\<close> and \<open>TOTAL: N/A\<close> gives the empty text.
\<close>

theorem total_amount_first_accepted:
  assumes "in_repertoire t"
  shows "field ''total_amount'' t =
     Inr (case accepted_amount (amount_patterns ! 0) (str_upper t) of
            Some a \<Rightarrow> a
          | None \<Rightarrow>
              (case accepted_amount (amount_patterns ! 1) (str_upper t) of
                 Some a \<Rightarrow> a
               | None \<Rightarrow> []))
   \<and> field ''total_amount'' (cps ''TOTAL: '' @ [POUND] @ cps ''1,234.56'') = Inr (cps ''1234.56'')
   \<and> field ''total_amount'' (cps ''TOTAL: N/A'') = Inr []"
proof -
  have a: "accepted_amount (amount_patterns ! 0)
             (str_upper (cps ''TOTAL: '' @ [POUND] @ cps ''1,234.56'')) = Some (cps ''1234.56'')"
    by (simp add: chr_defs rx_defs accepted_amount_def clean_amount_def amount_ok_def)
  have b: "accepted_amount (amount_patterns ! 0) (str_upper (cps ''TOTAL: N/A'')) = None"
    "accepted_amount (amount_patterns ! 1) (str_upper (cps ''TOTAL: N/A'')) = None"
    by (simp_all add: chr_defs rx_defs accepted_amount_def clean_amount_def amount_ok_def)
  have c: "field ''total_amount'' (cps ''TOTAL: '' @ [POUND] @ cps ''1,234.56'')
             = Inr (cps ''1234.56'')"
    unfolding field_total_amount a by simp
  have d: "field ''total_amount'' (cps ''TOTAL: N/A'') = Inr []"
    unfolding field_total_amount b by simp
  from field_total_amount[of t] c d show ?thesis by blast
qed

theorem total_amount_first_accepted_witness:
  "in_repertoire (cps ''Amount Due: $45.50'')
   \<and> accepted_amount (amount_patterns ! 0) (str_upper (cps ''Amount Due: $45.50'')) = None
   \<and> accepted_amount (amount_patterns ! 1) (str_upper (cps ''Amount Due: $45.50''))
       = Some (cps ''45.50'')
   \<and> field ''total_amount'' (cps ''Amount Due: $45.50'') = Inr (cps ''45.50'')"
proof -
  let ?t = "cps ''Amount Due: $45.50''"
  have rep: "in_repertoire ?t" by (simp add: in_repertoire_def cps_def)
  have a: "accepted_amount (amount_patterns ! 0) (str_upper ?t) = None"
    "accepted_amount (amount_patterns ! 1) (str_upper ?t) = Some (cps ''45.50'')"
    by (simp_all add: chr_defs rx_defs accepted_amount_def clean_amount_def amount_ok_def)
  from total_amount_first_accepted[OF rep]
  have "field ''total_amount'' ?t =
     Inr (case accepted_amount (amount_patterns ! 0) (str_upper ?t) of
            Some a \<Rightarrow> a
          | None \<Rightarrow>
              (case accepted_amount (amount_patterns ! 1) (str_upper ?t) of
                 Some a \<Rightarrow> a
               | None \<Rightarrow> []))"
    by blast
  then have "field ''total_amount'' ?t = Inr (cps ''45.50'')"
    unfolding a by simp
  with rep a show ?thesis by blast
qed

text \<open>
  C4, as the claim has it, fails: in the text below the TOTAL pattern matches, with the
  token \<open>,\<close>, which does not pass the digit check; the total does not stay empty, the
  AMOUNT DUE pattern is tried and gives \<open>5.00\<close>.
\<close>

theorem total_amount_falls_through:
  "map_option group1
     (re_search (amount_patterns ! 0) (str_upper (cps ''Total: ,\<newline>Amount Due: 5.00'')))
     = Some (Some (cps '',''))
   \<and> field ''total_amount'' (cps ''Total: ,\<newline>Amount Due: 5.00'') = Inr (cps ''5.00'')"
  by (simp add: chr_defs rx_defs ex_defs Let_def)

text \<open>
  C5, as the code has it.  For a text of the repertoire, the invoice number is the stripped group of the match of the first
  pattern, in the order of the list, that matches anywhere in the upper-cased text; the
  patterns after it are not tried.  When the upper-cased text holds \<open>INVOICE NO: A100\<close>,
  the first pattern matches at no position before it, and no letter, digit or dash follows
  it, the match is that of the first pattern on \<open>INVOICE NO: A100\<close> and the invoice
  number is \<open>A100\<close>, wherever a bare \<open>#A100\<close> stands.
\<close>

theorem invoice_number_first_pattern_wins:
  assumes "in_repertoire t"
  shows "field ''invoice_number'' t =
     Inr (case first_matching invoice_patterns (str_upper t) of
            None \<Rightarrow> []
          | Some m \<Rightarrow> str_strip (case group1 m of None \<Rightarrow> [] | Some g \<Rightarrow> g))
   \<and> (str_upper t = pre @ cps ''INVOICE NO: A100'' @ post
        \<and> (\<forall>i<length pre. match_at (invoice_patterns ! 0) (drop i (str_upper t)) = None)
        \<and> (case post of [] \<Rightarrow> True | c # _ \<Rightarrow> \<not> is_tok c)
      \<longrightarrow> first_matching invoice_patterns (str_upper t)
            = Some \<lparr>group0 = cps ''INVOICE NO: A100'', group1 = Some (cps ''A100''),
                    after = post\<rparr>
          \<and> field ''invoice_number'' t = Inr (cps ''A100''))"
proof (intro conjI impI)
  show "field ''invoice_number'' t =
     Inr (case first_matching invoice_patterns (str_upper t) of
            None \<Rightarrow> []
          | Some m \<Rightarrow> str_strip (case group1 m of None \<Rightarrow> [] | Some g \<Rightarrow> g))"
    by (rule field_invoice_number)
next
  assume h: "str_upper t = pre @ cps ''INVOICE NO: A100'' @ post
        \<and> (\<forall>i<length pre. match_at (invoice_patterns ! 0) (drop i (str_upper t)) = None)
        \<and> (case post of [] \<Rightarrow> True | c # _ \<Rightarrow> \<not> is_tok c)"
  let ?p = "invoice_patterns ! 0"
  let ?m = "\<lparr>group0 = cps ''INVOICE NO: A100'', group1 = Some (cps ''A100''), after = post\<rparr>"
  from h have eq: "str_upper t = pre @ cps ''INVOICE NO: A100'' @ post"
    and nm: "\<forall>i<length pre. match_at ?p (drop i (str_upper t)) = None"
    and st: "case post of [] \<Rightarrow> True | c # _ \<Rightarrow> \<not> is_tok c"
    by blast+
  have "re_search ?p (pre @ cps ''INVOICE NO: A100'' @ post)
          = re_search ?p (cps ''INVOICE NO: A100'' @ post)"
    by (rule re_search_skip[OF nm[unfolded eq]])
  also have "\<dots> = Some ?m"
    using invoice_no_header[OF st] by (simp add: cps_def)
  finally have "re_search ?p (str_upper t) = Some ?m"
    by (simp only: eq)
  then show m: "first_matching invoice_patterns (str_upper t) = Some ?m"
    by (simp add: invoice_patterns_def first_matching_def)
  show "field ''invoice_number'' t = Inr (cps ''A100'')"
    unfolding field_invoice_number m by (simp add: chr_defs)
qed

theorem invoice_number_first_pattern_wins_witness:
  "in_repertoire (cps ''Ref #A100\<newline>Invoice No: A100\<newline>Total: 5'')
   \<and> str_upper (cps ''Ref #A100\<newline>Invoice No: A100\<newline>Total: 5'')
     = cps ''REF #A100\<newline>'' @ cps ''INVOICE NO: A100'' @ cps ''\<newline>TOTAL: 5''
   \<and> list_all (\<lambda>i. match_at (invoice_patterns ! 0)
          (drop i (str_upper (cps ''Ref #A100\<newline>Invoice No: A100\<newline>Total: 5''))) = None)
        [0..<length (cps ''REF #A100\<newline>'')]
   \<and> first_matching invoice_patterns (str_upper (cps ''Ref #A100\<newline>Invoice No: A100\<newline>Total: 5''))
       = Some \<lparr>group0 = cps ''INVOICE NO: A100'', group1 = Some (cps ''A100''),
               after = cps ''\<newline>TOTAL: 5''\<rparr>
   \<and> field ''invoice_number'' (cps ''Ref #A100\<newline>Invoice No: A100\<newline>Total: 5'')
     = Inr (cps ''A100'')"
proof -
  let ?t = "cps ''Ref #A100\<newline>Invoice No: A100\<newline>Total: 5''"
  let ?pre = "cps ''REF #A100\<newline>''"
  let ?post = "cps ''\<newline>TOTAL: 5''"
  have a: "str_upper ?t = ?pre @ cps ''INVOICE NO: A100'' @ ?post"
    by (simp add: chr_defs)
  have b: "list_all (\<lambda>i. match_at (invoice_patterns ! 0) (drop i (str_upper ?t)) = None)
             [0..<length ?pre]"
    by (simp add: chr_defs rx_defs)
  then have c: "\<forall>i<length ?pre. match_at (invoice_patterns ! 0) (drop i (str_upper ?t)) = None"
    by (simp only: all_less_list_all)
  have d: "case ?post of [] \<Rightarrow> True | c # _ \<Rightarrow> \<not> is_tok c"
    by (simp add: chr_defs)
  have rep: "in_repertoire ?t" by (simp add: in_repertoire_def cps_def)
  from invoice_number_first_pattern_wins[OF rep, of ?pre ?post] rep a b c d
  show ?thesis by blast
qed

text \<open>
  C5, as the claim has it, fails: the text below holds both \<open>INVOICE NO: A100\<close> and a bare
  \<open>#A100\<close>, and its invoice number is \<open>DATE\<close>, the first pattern matching first on
  the line of the invoice date.
\<close>

theorem invoice_date_line_before_number:
  "field ''invoice_number''
     (cps ''INVOICE DATE: 10/01/2024\<newline>INVOICE NO: A100\<newline>#A100'') = Inr (cps ''DATE'')"
  by (simp add: chr_defs rx_defs ex_defs Let_def)


text \<open>
  C10.  For a text of the repertoire: when the upper-cased text holds the header \<open>INVOICE DATE:\<close> and the first pattern
  matches at no position before it, the optional \<open>NO|NUMBER|#\<close> of that pattern matches
  nothing, the group takes the word \<open>DATE\<close>, and the invoice number is \<open>DATE\<close>.
\<close>

theorem invoice_date_header_taken_as_number:
  assumes rep: "in_repertoire t"
    and upper: "str_upper t = pre @ cps ''INVOICE DATE:'' @ post"
    and before: "\<forall>i<length pre. match_at (invoice_patterns ! 0) (drop i (str_upper t)) = None"
  shows "field ''invoice_number'' t = Inr (cps ''DATE'')"
proof -
  let ?p = "invoice_patterns ! 0"
  let ?m = "\<lparr>group0 = cps ''INVOICE DATE'', group1 = Some (cps ''DATE''), after = 58 # post\<rparr>"
  have "re_search ?p (pre @ cps ''INVOICE DATE:'' @ post)
          = re_search ?p (cps ''INVOICE DATE:'' @ post)"
    by (rule re_search_skip[OF before[unfolded upper]])
  also have "\<dots> = Some ?m"
    using invoice_date_header[of post] by (simp add: cps_def)
  finally have "re_search ?p (str_upper t) = Some ?m"
    by (simp only: upper)
  then have "first_matching invoice_patterns (str_upper t) = Some ?m"
    by (simp add: invoice_patterns_def first_matching_def)
  then show ?thesis
    by (simp add: field_invoice_number chr_defs)
qed


theorem invoice_date_header_taken_as_number_witness:
  "in_repertoire (cps ''Acme Ltd\<newline>Invoice Date: 10/01/2024\<newline>Invoice No: A100'')
   \<and> str_upper (cps ''Acme Ltd\<newline>Invoice Date: 10/01/2024\<newline>Invoice No: A100'')
     = cps ''ACME LTD\<newline>'' @ cps ''INVOICE DATE:'' @ cps '' 10/01/2024\<newline>INVOICE NO: A100''
   \<and> list_all (\<lambda>i. match_at (invoice_patterns ! 0)
          (drop i (str_upper (cps ''Acme Ltd\<newline>Invoice Date: 10/01/2024\<newline>Invoice No: A100''))) = None)
        [0..<length (cps ''ACME LTD\<newline>'')]
   \<and> field ''invoice_number'' (cps ''Acme Ltd\<newline>Invoice Date: 10/01/2024\<newline>Invoice No: A100'')
     = Inr (cps ''DATE'')"
proof -
  let ?t = "cps ''Acme Ltd\<newline>Invoice Date: 10/01/2024\<newline>Invoice No: A100''"
  let ?pre = "cps ''ACME LTD\<newline>''"
  let ?post = "cps '' 10/01/2024\<newline>INVOICE NO: A100''"
  have a: "str_upper ?t = ?pre @ cps ''INVOICE DATE:'' @ ?post"
    by (simp add: chr_defs)
  have b: "list_all (\<lambda>i. match_at (invoice_patterns ! 0) (drop i (str_upper ?t)) = None)
             [0..<length ?pre]"
    by (simp add: chr_defs rx_defs)
  then have c: "\<forall>i<length ?pre. match_at (invoice_patterns ! 0) (drop i (str_upper ?t)) = None"
    by (simp only: all_less_list_all)
  have rep: "in_repertoire ?t" by (simp add: in_repertoire_def cps_def)
  from invoice_date_header_taken_as_number[OF rep a c] rep a b show ?thesis by blast
qed

text \<open>
  C8.  The TOTAL pattern is searched anywhere in the upper-cased text, so it matches inside
  the word SUBTOTAL.  For a text of the repertoire: when the upper-cased text holds a line \<open>SUBTOTAL: <number>\<close>, the
  number being digits and commas with at least one digit, then optionally a point and
  digits, and ending the text or the line, and the TOTAL pattern matches at no position
  before it, the total is that number without its commas, and is not empty.
\<close>

theorem subtotal_line_taken_as_total:
  assumes rep: "in_repertoire t"
    and upper: "str_upper t = pre @ cps ''SUBTOTAL: '' @ ip @ fp @ post"
    and before: "\<forall>i<length pre. match_at (amount_patterns ! 0) (drop i (str_upper t)) = None"
    and ip: "list_all is_dc ip" "list_ex is_digit ip"
    and fp: "fp = [] \<or> (\<exists>fd. fp = 46 # fd \<and> list_all is_digit fd)"
    and post: "case post of [] \<Rightarrow> True | c # _ \<Rightarrow> c = NEWLINE"
  shows "field ''total_amount'' t = Inr (filter (\<lambda>c. c \<noteq> 44) ip @ fp)
         \<and> filter (\<lambda>c. c \<noteq> 44) ip @ fp \<noteq> []"
proof -
  let ?p = "amount_patterns ! 0"
  let ?m = "\<lparr>group0 = cps ''TOTAL: '' @ ip @ fp, group1 = Some (ip @ fp), after = post\<rparr>"
  from ip(2) have ne: "ip \<noteq> []" by auto
  have m: "match_at ?p (cps ''TOTAL: '' @ ip @ fp @ post) = Some ?m"
    by (rule total_in_subtotal[OF ne ip(1) fp post])
  have "re_search ?p (pre @ cps ''SUBTOTAL: '' @ ip @ fp @ post)
          = re_search ?p (cps ''SUBTOTAL: '' @ ip @ fp @ post)"
    by (rule re_search_skip[OF before[unfolded upper]])
  also have "\<dots> = re_search ?p (cps ''TOTAL: '' @ ip @ fp @ post)"
    by (simp add: cps_def match_at_def amount_patterns_def starts_with_def)
  also have "\<dots> = Some ?m"
    using m by (simp add: cps_def)
  finally have s: "re_search ?p (str_upper t) = Some ?m"
    by (simp only: upper)
  have ok: "amount_ok (filter (\<lambda>c. c \<noteq> 44) ip @ fp)"
    by (rule amount_ok_number[OF ip fp])
  have acc: "accepted_amount ?p (str_upper t) = Some (filter (\<lambda>c. c \<noteq> 44) ip @ fp)"
    using s ok by (simp add: accepted_amount_def clean_amount_number[OF ip(1) fp])
  have "field ''total_amount'' t = Inr (filter (\<lambda>c. c \<noteq> 44) ip @ fp)"
    unfolding field_total_amount acc by simp
  moreover have "filter (\<lambda>c. c \<noteq> 44) ip @ fp \<noteq> []"
  proof -
    from ip(2) obtain x where "x \<in> set ip" "is_digit x" by (auto simp: list_ex_iff)
    then have "x \<in> set (filter (\<lambda>c. c \<noteq> 44) ip)" by (auto simp: is_digit_def)
    then have "filter (\<lambda>c. c \<noteq> 44) ip \<noteq> []" by (metis empty_iff empty_set)
    then show ?thesis by simp
  qed
  ultimately show ?thesis by blast
qed

theorem subtotal_line_taken_as_total_witness:
  "in_repertoire (cps ''Acme Ltd\<newline>Subtotal: 1,250.00\<newline>Thank you'')
   \<and> str_upper (cps ''Acme Ltd\<newline>Subtotal: 1,250.00\<newline>Thank you'')
     = cps ''ACME LTD\<newline>'' @ cps ''SUBTOTAL: '' @ cps ''1,250'' @ cps ''.00'' @ cps ''\<newline>THANK YOU''
   \<and> list_all (\<lambda>i. match_at (amount_patterns ! 0)
          (drop i (str_upper (cps ''Acme Ltd\<newline>Subtotal: 1,250.00\<newline>Thank you''))) = None)
        [0..<length (cps ''ACME LTD\<newline>'')]
   \<and> list_all is_dc (cps ''1,250'') \<and> list_ex is_digit (cps ''1,250'')
   \<and> field ''total_amount'' (cps ''Acme Ltd\<newline>Subtotal: 1,250.00\<newline>Thank you'')
     = Inr (cps ''1250.00'')"
proof -
  let ?t = "cps ''Acme Ltd\<newline>Subtotal: 1,250.00\<newline>Thank you''"
  let ?pre = "cps ''ACME LTD\<newline>''"
  let ?post = "cps ''\<newline>THANK YOU''"
  have a: "str_upper ?t = ?pre @ cps ''SUBTOTAL: '' @ cps ''1,250'' @ cps ''.00'' @ ?post"
    by (simp add: chr_defs)
  have b: "list_all (\<lambda>i. match_at (amount_patterns ! 0) (drop i (str_upper ?t)) = None)
             [0..<length ?pre]"
    by (simp add: chr_defs rx_defs)
  then have c: "\<forall>i<length ?pre. match_at (amount_patterns ! 0) (drop i (str_upper ?t)) = None"
    by (simp only: all_less_list_all)
  have d: "list_all is_dc (cps ''1,250'')" "list_ex is_digit (cps ''1,250'')"
    by (simp_all add: chr_defs)
  have e: "cps ''.00'' = [] \<or> (\<exists>fd. cps ''.00'' = 46 # fd \<and> list_all is_digit fd)"
    by (simp add: chr_defs)
  have f: "case ?post of [] \<Rightarrow> True | c # _ \<Rightarrow> c = NEWLINE"
    by (simp add: chr_defs)
  have g: "filter (\<lambda>c. c \<noteq> 44) (cps ''1,250'') @ cps ''.00'' = cps ''1250.00''"
    by (simp add: cps_def)
  have rep: "in_repertoire ?t" by (simp add: in_repertoire_def cps_def)
  from subtotal_line_taken_as_total[OF rep a c d e f] rep a b d show ?thesis
    unfolding g by blast
qed


text \<open>
  C9, as the code has it.  Take a text of the repertoire that holds a date written with a
  two-digit day, a month of one or two digits and a four-digit year, and no other
  date-shaped substring: no date pattern matches at a position before the date, nor at a
  position from the last two digits of the year on.  Then the first pattern finds the date,
  the second nothing, and the third the date without the last two digits of its year: two
  dates are found, the invoice date is the date and the due date its truncated copy.
\<close>

theorem single_date_gives_truncated_due_date:
  assumes rep: "in_repertoire t"
    and t: "t = pre @ dd @ [s1] @ mm @ [s2] @ yyyy @ post"
    and dd: "length dd = 2" "list_all is_digit dd"
    and mm: "length mm = 1 \<or> length mm = 2" "list_all is_digit mm"
    and yyyy: "length yyyy = 4" "list_all is_digit yyyy"
    and sep: "is_sep s1" "is_sep s2"
    and before: "\<forall>p\<in>set date_patterns. \<forall>i<length pre. match_at p (drop i t) = None"
    and after: "\<forall>p\<in>set date_patterns. \<forall>i\<le>length (drop 2 yyyy @ post).
                  match_at p (drop i (drop 2 yyyy @ post)) = None"
  shows "dates_found t = [dd @ [s1] @ mm @ [s2] @ yyyy, dd @ [s1] @ mm @ [s2] @ take 2 yyyy]
         \<and> field ''invoice_date'' t = Inr (dd @ [s1] @ mm @ [s2] @ yyyy)
         \<and> field ''due_date'' t = Inr (dd @ [s1] @ mm @ [s2] @ take 2 yyyy)"
proof -
  from dd obtain d1 d2 where d: "dd = [d1, d2]" "is_digit d1" "is_digit d2"
    by (cases dd; cases "tl dd") auto
  from yyyy obtain y1 y2 y3 y4 where y: "yyyy = [y1, y2, y3, y4]"
    "is_digit y1" "is_digit y2" "is_digit y3" "is_digit y4"
    by (cases yyyy; cases "tl yyyy"; cases "tl (tl yyyy)"; cases "tl (tl (tl yyyy))") auto
  from mm obtain m1 m2 where m: "mm = [m1] \<or> mm = [m1, m2]" "is_digit m1" "is_digit m2"
  proof (cases mm)
    case Nil
    with mm show ?thesis by simp
  next
    case (Cons a as)
    show ?thesis
    proof (cases as)
      case Nil
      with Cons mm that[of a a] show ?thesis by simp
    next
      case (Cons b bs)
      with \<open>mm = a # as\<close> mm that[of a b] show ?thesis by simp
    qed
  qed
  let ?x = "d1 # d2 # s1 # mm @ s2 # y1 # y2 # y3 # y4 # post"
  have tx: "t = pre @ ?x" by (simp add: t d y)
  have mem: "date_patterns ! i \<in> set date_patterns" if "i < 3" for i
    using that by (intro nth_mem) (simp add: date_patterns_def)
  have f: "re_findall (date_patterns ! i) t = re_findall_from (date_patterns ! i) ?x False"
    if "i < 3" for i
  proof -
    from before mem[OF that]
    have "\<forall>j<length pre. match_at (date_patterns ! i) (drop j t) = None" by blast
    from findall_skip[OF this[unfolded tx]] show ?thesis
      by (simp only: re_findall_def tx)
  qed
  have tl: "re_findall_from (date_patterns ! i) (y3 # y4 # post) False = []" if "i < 3" for i
  proof -
    from after mem[OF that]
    have "\<forall>j\<le>length (drop 2 yyyy @ post).
            match_at (date_patterns ! i) (drop j (drop 2 yyyy @ post)) = None" by blast
    then have "\<forall>j\<le>length (y3 # y4 # post).
            match_at (date_patterns ! i) (drop j (y3 # y4 # post)) = None"
      by (simp add: y)
    from findall_none[OF this] show ?thesis .
  qed
  have ps: "re_findall_from (date_patterns ! 0) post False = []"
  proof (rule findall_none, intro allI impI)
    fix j assume "j \<le> length post"
    then have "j + 2 \<le> length (drop 2 yyyy @ post)" by (simp add: y)
    with after mem[of 0]
    have "match_at (date_patterns ! 0) (drop (j + 2) (drop 2 yyyy @ post)) = None" by simp
    then show "match_at (date_patterns ! 0) (drop j post) = None" by (simp add: y)
  qed
  have a: "re_findall (date_patterns ! 0) t = [d1 # d2 # s1 # mm @ [s2, y1, y2, y3, y4]]"
    using f[of 0] dmy_on_date[OF d(2,3) y(2-5) sep m ps] by simp
  have b: "re_findall (date_patterns ! 1) t = []"
    using f[of 1] textual_on_date[OF d(2,3) y(2-5) sep m tl[of 1]] by simp
  have c: "re_findall (date_patterns ! 2) t = [d1 # d2 # s1 # mm @ [s2, y1, y2]]"
    using f[of 2] ymd_on_date[OF d(2,3) y(2,3) sep m tl[of 2]] by simp
  have "dates_found t =
     re_findall (date_patterns ! 0) t @ re_findall (date_patterns ! 1) t
       @ re_findall (date_patterns ! 2) t"
    by (simp add: dates_found_def date_patterns_def)
  then have df: "dates_found t
      = [dd @ [s1] @ mm @ [s2] @ yyyy, dd @ [s1] @ mm @ [s2] @ take 2 yyyy]"
    unfolding a b c by (simp add: d y)
  show ?thesis
    unfolding field_invoice_date field_due_date df by simp
qed

theorem single_date_gives_truncated_due_date_witness:
  "in_repertoire (cps ''Invoice 7\<newline>Date: 10/01/2024\<newline>Total: 5.00'')
   \<and> cps ''Invoice 7\<newline>Date: 10/01/2024\<newline>Total: 5.00''
       = cps ''Invoice 7\<newline>Date: '' @ cps ''10'' @ [47] @ cps ''01'' @ [47] @ cps ''2024''
           @ cps ''\<newline>Total: 5.00''
   \<and> list_all is_digit (cps ''10'') \<and> list_all is_digit (cps ''01'')
   \<and> list_all is_digit (cps ''2024'') \<and> is_sep 47
   \<and> list_all (\<lambda>p. list_all (\<lambda>i. match_at p
          (drop i (cps ''Invoice 7\<newline>Date: 10/01/2024\<newline>Total: 5.00'')) = None)
          [0..<length (cps ''Invoice 7\<newline>Date: '')]) date_patterns
   \<and> list_all (\<lambda>p. list_all (\<lambda>i. match_at p
          (drop i (drop 2 (cps ''2024'') @ cps ''\<newline>Total: 5.00'')) = None)
          [0..<Suc (length (drop 2 (cps ''2024'') @ cps ''\<newline>Total: 5.00''))]) date_patterns
   \<and> dates_found (cps ''Invoice 7\<newline>Date: 10/01/2024\<newline>Total: 5.00'')
       = [cps ''10/01/2024'', cps ''10/01/20'']
   \<and> field ''invoice_date'' (cps ''Invoice 7\<newline>Date: 10/01/2024\<newline>Total: 5.00'')
       = Inr (cps ''10/01/2024'')
   \<and> field ''due_date'' (cps ''Invoice 7\<newline>Date: 10/01/2024\<newline>Total: 5.00'')
       = Inr (cps ''10/01/20'')"
proof -
  let ?t = "cps ''Invoice 7\<newline>Date: 10/01/2024\<newline>Total: 5.00''"
  let ?pre = "cps ''Invoice 7\<newline>Date: ''"
  let ?post = "cps ''\<newline>Total: 5.00''"
  have rep: "in_repertoire ?t" by (simp add: in_repertoire_def cps_def)
  have t: "?t = ?pre @ cps ''10'' @ [47] @ cps ''01'' @ [47] @ cps ''2024'' @ ?post"
    by (simp add: cps_def)
  have dg: "list_all is_digit (cps ''10'')" "list_all is_digit (cps ''01'')"
    "list_all is_digit (cps ''2024'')"
    by (simp_all add: cps_def is_digit_def)
  have ln: "length (cps ''10'') = 2" "length (cps ''01'') = 1 \<or> length (cps ''01'') = 2"
    "length (cps ''2024'') = 4"
    by (simp_all add: cps_def)
  have sp: "is_sep 47" by (simp add: is_sep_def)
  have b: "list_all (\<lambda>p. list_all (\<lambda>i. match_at p (drop i ?t) = None)
          [0..<length ?pre]) date_patterns"
    by (simp add: chr_defs rx_defs)
  then have b': "\<forall>p\<in>set date_patterns. \<forall>i<length ?pre. match_at p (drop i ?t) = None"
    by (simp only: all_less_list_all list_all_iff)
  have a: "list_all (\<lambda>p. list_all (\<lambda>i. match_at p
          (drop i (drop 2 (cps ''2024'') @ ?post)) = None)
          [0..<Suc (length (drop 2 (cps ''2024'') @ ?post))]) date_patterns"
    by (simp add: chr_defs rx_defs)
  then have a': "\<forall>p\<in>set date_patterns. \<forall>i\<le>length (drop 2 (cps ''2024'') @ ?post).
      match_at p (drop i (drop 2 (cps ''2024'') @ ?post)) = None"
    by (simp only: all_le_list_all list_all_iff)
  have r: "cps ''10'' @ [47] @ cps ''01'' @ [47] @ cps ''2024'' = cps ''10/01/2024''"
    "cps ''10'' @ [47] @ cps ''01'' @ [47] @ take 2 (cps ''2024'') = cps ''10/01/20''"
    by (simp_all add: cps_def)
  from single_date_gives_truncated_due_date[OF rep t ln(1) dg(1) ln(2) dg(2) ln(3) dg(3) sp sp b' a']
    rep t dg sp b a
  show ?thesis unfolding r by blast
qed

text \<open>
  C9, as the claim has it, fails for a one-digit day: in \<open>1/2/2024\<close> the third pattern,
  which needs two digits before its first separator, matches nowhere; one date is found and
  the due date stays empty.
\<close>

theorem single_digit_day_leaves_due_date_empty:
  "dates_found (cps ''1/2/2024'') = [cps ''1/2/2024'']
   \<and> field ''due_date'' (cps ''1/2/2024'') = Inr []"
proof -
  have a: "dates_found (cps ''1/2/2024'') = [cps ''1/2/2024'']"
    by (simp add: chr_defs rx_defs dates_found_def)
  show ?thesis unfolding field_due_date a by simp
qed


end
